theory Spec2Isabelle
  imports Main "HOL-Library.Char_ord" "HOL-Library.List_Lexorder" "HOL-Library.AList"
begin

section \<open>Values, strings and bytes\<close>

text \<open>
  The store handles Python values that \<^verbatim>\<open>json.dumps\<close> accepts and \<^verbatim>\<open>json.loads\<close>
  returns: \<^verbatim>\<open>None\<close>, booleans, integers, floats, strings, lists and dicts with string
  keys. A dict is an association list in insertion order; Python keeps its keys
  distinct, which is the predicate \<open>wf_json\<close>. A Python \<^verbatim>\<open>str\<close> is a list of code
  points; the embedding covers the code points 0 to 255, one \<open>char\<close> each, and
  \<open>utf8_encode\<close> turns such a text into the bytes that \<^verbatim>\<open>.encode('utf-8')\<close> yields.

  A float is an IEEE double. A finite one is \<open>PyFinite m e s\<close>: its value is
  \<open>m * 2 ^ e\<close>, and \<open>s\<close> is the text that \<^verbatim>\<open>float.__repr__\<close> gives for it, which is what
  \<^verbatim>\<open>json.dumps\<close> writes. The embedding takes the text as given and does not compute it
  from the value; the sign of a zero is in the text only. \<^verbatim>\<open>json.loads\<close> reads
  \<^verbatim>\<open>Infinity\<close>, \<^verbatim>\<open>-Infinity\<close> and \<^verbatim>\<open>NaN\<close> as the three other floats.
\<close>

type_synonym bytes = string
type_synonym digest = string

datatype pyfloat = PyFinite int int string | PyPosInf | PyNegInf | PyNaN

datatype json =
    JNull
  | JBool bool
  | JInt int
  | JFloat pyfloat
  | JStr string
  | JList "json list"
  | JDict "(string \<times> json) list"

fun wf_json :: "json \<Rightarrow> bool" where
  "wf_json (JList xs) = (\<forall>x \<in> set xs. wf_json x)"
| "wf_json (JDict kvs) = (distinct (map fst kvs) \<and> (\<forall>kv \<in> set kvs. wf_json (snd kv)))"
| "wf_json _ = True"

text \<open>
  Python's \<^verbatim>\<open>==\<close> on numbers compares values whatever the type: \<^verbatim>\<open>True == 1\<close>,
  \<^verbatim>\<open>1 == 1.0\<close>, \<^verbatim>\<open>0.0 == -0.0\<close>, and \<^verbatim>\<open>NaN\<close> equals nothing. \<open>scalar_eq\<close> is
  \<^verbatim>\<open>==\<close> on values that are neither lists nor dicts.
\<close>

fun float_eq_int :: "pyfloat \<Rightarrow> int \<Rightarrow> bool" where
  "float_eq_int (PyFinite m e s) i = (if 0 \<le> e then m * 2 ^ nat e = i else m = i * 2 ^ nat (- e))"
| "float_eq_int _ i = False"

fun float_eq :: "pyfloat \<Rightarrow> pyfloat \<Rightarrow> bool" where
  "float_eq (PyFinite m e s) (PyFinite m' e' s') =
     (m * 2 ^ nat (e - min e e') = m' * 2 ^ nat (e' - min e e'))"
| "float_eq PyPosInf PyPosInf = True"
| "float_eq PyNegInf PyNegInf = True"
| "float_eq _ _ = False"

fun py_number :: "json \<Rightarrow> (int + pyfloat) option" where
  "py_number (JBool b) = Some (Inl (if b then 1 else 0))"
| "py_number (JInt i) = Some (Inl i)"
| "py_number (JFloat f) = Some (Inr f)"
| "py_number _ = None"

definition scalar_eq :: "json \<Rightarrow> json \<Rightarrow> bool" where
  "scalar_eq a b =
     (case (py_number a, py_number b) of
        (Some (Inl i), Some (Inl j)) \<Rightarrow> i = j
      | (Some (Inl i), Some (Inr g)) \<Rightarrow> float_eq_int g i
      | (Some (Inr f), Some (Inl j)) \<Rightarrow> float_eq_int f j
      | (Some (Inr f), Some (Inr g)) \<Rightarrow> float_eq f g
      | (None, None) \<Rightarrow> a = b
      | _ \<Rightarrow> False)"

text \<open>
  \<open>json_eq\<close> is Python's \<^verbatim>\<open>==\<close> on values: lists position by position, dicts by size
  and by key (\<^verbatim>\<open>dict.__eq__\<close>), the rest by \<open>scalar_eq\<close>. Insertion order of a dict
  plays no part. (Python takes two references to one object as equal inside a list or a
  dict without calling \<^verbatim>\<open>==\<close>, which matters for \<^verbatim>\<open>NaN\<close> only; here two
  \<^verbatim>\<open>NaN\<close> are two objects.)
\<close>

fun json_eq :: "json \<Rightarrow> json \<Rightarrow> bool" where
  "json_eq (JList xs) (JList ys) = list_all2 json_eq xs ys"
| "json_eq (JDict xs) (JDict ys) =
     (length xs = length ys \<and>
      (\<forall>kv \<in> set xs. case map_of ys (fst kv) of None \<Rightarrow> False | Some w \<Rightarrow> json_eq (snd kv) w))"
| "json_eq a b = scalar_eq a b"

text \<open>
  \<open>json_same\<close> is the finer relation that keeps the types apart: two values are the same
  when they are built alike, lists position by position and dicts key by key whatever the
  insertion order, with the same boolean, integer, float or string at each place.
\<close>

fun json_same :: "json \<Rightarrow> json \<Rightarrow> bool" where
  "json_same (JList xs) (JList ys) = list_all2 json_same xs ys"
| "json_same (JDict xs) (JDict ys) =
     (length xs = length ys \<and>
      (\<forall>kv \<in> set xs. case map_of ys (fst kv) of None \<Rightarrow> False | Some w \<Rightarrow> json_same (snd kv) w))"
| "json_same a b = (a = b)"

definition utf8_char :: "char \<Rightarrow> bytes" where
  "utf8_char c =
     (let n = (of_char c :: nat)
      in if n < 128 then [c] else [char_of (192 + n div 64), char_of (128 + n mod 64)])"

definition utf8_encode :: "string \<Rightarrow> bytes" where
  "utf8_encode s = concat (map utf8_char s)"

section \<open>Canonical encoding (integrity/canonical.py)\<close>

text \<open>
  \<^verbatim>\<open>canonical_json\<close> is \<^verbatim>\<open>json.dumps(obj, sort_keys=True, separators=(',', ':'),
  ensure_ascii=False, allow_nan=False).encode('utf-8')\<close>. The functions below follow the
  encoder of the standard library: decimal integers, the \<^verbatim>\<open>repr\<close> of a finite float,
  strings between double quotes with the escapes of \<^verbatim>\<open>ESCAPE_DCT\<close>, the items of a dict
  sorted by key. With \<^verbatim>\<open>allow_nan=False\<close> the encoder raises ValueError when the value
  holds a float that is not finite; \<open>out_of_range\<close> says whether it does, and \<open>dumps\<close> is
  the text that is built otherwise.
\<close>

definition digit_char :: "nat \<Rightarrow> char" where
  "digit_char n = ''0123456789abcdef'' ! n"

fun dec_nat :: "nat \<Rightarrow> string" where
  "dec_nat n = (if n < 10 then [digit_char n] else dec_nat (n div 10) @ [digit_char (n mod 10)])"

declare dec_nat.simps [simp del]

definition dec_int :: "int \<Rightarrow> string" where
  "dec_int i = (if i < 0 then CHR ''-'' # dec_nat (nat (- i)) else dec_nat (nat i))"

definition escape_char :: "char \<Rightarrow> string" where
  "escape_char c =
     (if c = CHR 0x22 then [CHR 0x5C, CHR 0x22]
      else if c = CHR 0x5C then [CHR 0x5C, CHR 0x5C]
      else if c = CHR 0x0A then [CHR 0x5C, CHR ''n'']
      else if c = CHR 0x0D then [CHR 0x5C, CHR ''r'']
      else if c = CHR 0x09 then [CHR 0x5C, CHR ''t'']
      else if c = CHR 0x08 then [CHR 0x5C, CHR ''b'']
      else if c = CHR 0x0C then [CHR 0x5C, CHR ''f'']
      else if (of_char c :: nat) < 32
        then [CHR 0x5C, CHR ''u'', CHR ''0'', CHR ''0'',
              digit_char ((of_char c :: nat) div 16), digit_char ((of_char c :: nat) mod 16)]
      else [c])"

definition encode_basestring :: "string \<Rightarrow> string" where
  "encode_basestring s = CHR 0x22 # concat (map escape_char s) @ [CHR 0x22]"

fun join :: "string \<Rightarrow> string list \<Rightarrow> string" where
  "join sep [] = []"
| "join sep [x] = x"
| "join sep (x # y # ys) = x @ sep @ join sep (y # ys)"

fun float_text :: "pyfloat \<Rightarrow> string" where
  "float_text (PyFinite m e s) = s"
| "float_text PyPosInf = ''Infinity''"
| "float_text PyNegInf = ''-Infinity''"
| "float_text PyNaN = ''NaN''"

fun dumps :: "json \<Rightarrow> string" where
  "dumps JNull = ''null''"
| "dumps (JBool b) = (if b then ''true'' else ''false'')"
| "dumps (JInt i) = dec_int i"
| "dumps (JFloat f) = float_text f"
| "dumps (JStr s) = encode_basestring s"
| "dumps (JList xs) = ''['' @ join '','' (map dumps xs) @ '']''"
| "dumps (JDict kvs) =
     ''{'' @ join '',''
       (map (\<lambda>kv. encode_basestring (fst kv) @ '':'' @ dumps (snd kv)) (sort_key fst kvs)) @ ''}''"

fun out_of_range :: "json \<Rightarrow> bool" where
  "out_of_range (JFloat f) = (case f of PyFinite m e s \<Rightarrow> False | _ \<Rightarrow> True)"
| "out_of_range (JList xs) = (\<exists>x \<in> set xs. out_of_range x)"
| "out_of_range (JDict kvs) = (\<exists>kv \<in> set kvs. out_of_range (snd kv))"
| "out_of_range _ = False"

definition canonical_encoding :: "json \<Rightarrow> bytes" where
  "canonical_encoding obj = utf8_encode (dumps obj)"

section \<open>Errors (errors.py) and the Python exceptions that can escape\<close>

datatype error =
    ObjectNotFoundError digest
  | ObjectCorruptedError digest digest digest
  | InvalidObjectError
  | InvalidReferenceError
  | ReferenceMissingError digest json
  | StorageError string
  | ValueError
  | TypeError
  | AttributeError
  | UnicodeDecodeError
  | RecursionError

definition canonical_json :: "json \<Rightarrow> error + bytes" where
  "canonical_json obj = (if out_of_range obj then Inl ValueError else Inr (canonical_encoding obj))"

text \<open>
  Parsing the bytes of a file, \<^verbatim>\<open>json.loads(data.decode('utf-8'))\<close>, is a parameter
  \<open>loads\<close> of the embedding. It returns the parsed value, or raises
  \<^verbatim>\<open>json.JSONDecodeError\<close> because the text is not JSON, or raises an exception that
  the handlers of the store do not name: UnicodeDecodeError for bytes that are not
  UTF-8, RecursionError for a text nested too deeply, ValueError for an integer with
  too many digits. \<open>load_exception\<close> is the exception as a caller without a handler
  sees it; \<^verbatim>\<open>json.JSONDecodeError\<close> is a ValueError.
\<close>

datatype load_error = NotJSON | NotUTF8 | NestedTooDeep | IntTooLong

fun load_exception :: "load_error \<Rightarrow> error" where
  "load_exception NotJSON = ValueError"
| "load_exception NotUTF8 = UnicodeDecodeError"
| "load_exception NestedTooDeep = RecursionError"
| "load_exception IntTooLong = ValueError"

section \<open>Python helpers\<close>

text \<open>Truth value of a Python object, as \<^verbatim>\<open>if x:\<close> tests it.\<close>

fun py_truthy :: "json \<Rightarrow> bool" where
  "py_truthy JNull = False"
| "py_truthy (JBool b) = b"
| "py_truthy (JInt i) = (i \<noteq> 0)"
| "py_truthy (JFloat f) = (case f of PyFinite m e s \<Rightarrow> m \<noteq> 0 | _ \<Rightarrow> True)"
| "py_truthy (JStr s) = (s \<noteq> [])"
| "py_truthy (JList xs) = (xs \<noteq> [])"
| "py_truthy (JDict kvs) = (kvs \<noteq> [])"

text \<open>Lists and dicts cannot be members of a Python set: hashing them raises TypeError.\<close>

fun py_hashable :: "json \<Rightarrow> bool" where
  "py_hashable (JList xs) = False"
| "py_hashable (JDict kvs) = False"
| "py_hashable _ = True"

fun is_dict :: "json \<Rightarrow> bool" where
  "is_dict (JDict kvs) = True"
| "is_dict _ = False"

text \<open>What \<^verbatim>\<open>for x in v\<close> visits: the items of a list, the characters of a string, the
  keys of a dict; anything else is not iterable.\<close>

fun py_iter :: "json \<Rightarrow> error + json list" where
  "py_iter (JList xs) = Inr xs"
| "py_iter (JStr s) = Inr (map (\<lambda>c. JStr [c]) s)"
| "py_iter (JDict kvs) = Inr (map (\<lambda>kv. JStr (fst kv)) kvs)"
| "py_iter _ = Inl TypeError"

text \<open>A Python set is a list without two equal members here; \<open>set_add\<close> is
  \<^verbatim>\<open>s.add(x)\<close>, which keeps the member already there when it is \<^verbatim>\<open>==\<close> to \<open>x\<close>, and
  \<open>set_update\<close> is \<^verbatim>\<open>s.update(xs)\<close>, which raises at the first unhashable item.\<close>

definition set_add :: "json \<Rightarrow> json list \<Rightarrow> error + json list" where
  "set_add x s = (if \<not> py_hashable x then Inl TypeError
                  else if list_ex (scalar_eq x) s then Inr s else Inr (s @ [x]))"

fun set_update :: "json list \<Rightarrow> json list \<Rightarrow> error + json list" where
  "set_update [] s = Inr s"
| "set_update (x # xs) s = (case set_add x s of Inl e \<Rightarrow> Inl e | Inr s' \<Rightarrow> set_update xs s')"

section \<open>Hashing (integrity/hashing.py)\<close>

text \<open>
  \<^verbatim>\<open>compute_hash\<close> is BLAKE3 or SHA-256 of the bytes, in hexadecimal. The hash function
  is a parameter \<open>H\<close> of the embedding; nothing below depends on which function it is.
\<close>

definition compute_object_hash :: "(bytes \<Rightarrow> digest) \<Rightarrow> json \<Rightarrow> error + digest" where
  "compute_object_hash H obj =
     (case canonical_json obj of Inl e \<Rightarrow> Inl e | Inr canonical_bytes \<Rightarrow> Inr (H canonical_bytes))"

definition get_hash_prefix :: "string \<Rightarrow> nat \<Rightarrow> error + string" where
  "get_hash_prefix hash_str prefix_length =
     (if length hash_str < prefix_length then Inl ValueError
      else Inr (take prefix_length hash_str))"

section \<open>Verification of single objects (integrity/verification.py)\<close>

definition verify_object_integrity :: "(bytes \<Rightarrow> digest) \<Rightarrow> json \<Rightarrow> digest \<Rightarrow> error + unit" where
  "verify_object_integrity H obj_data expected_hash =
     (case compute_object_hash H obj_data of
        Inl e \<Rightarrow> Inl e
      | Inr actual_hash \<Rightarrow>
          if actual_hash \<noteq> expected_hash
          then Inl (ObjectCorruptedError expected_hash expected_hash actual_hash)
          else Inr ())"

definition valid_types :: "json list" where
  "valid_types = [JStr ''blob'', JStr ''bundle'', JStr ''snapshot'', JStr ''tree'']"

definition verify_object_structure :: "json \<Rightarrow> error + unit" where
  "verify_object_structure obj_data =
     (case obj_data of
        JDict kvs \<Rightarrow>
          (case map_of kvs ''type'' of
             None \<Rightarrow> Inl InvalidObjectError
           | Some t \<Rightarrow>
               (case map_of kvs ''content'' of
                  None \<Rightarrow> Inl InvalidObjectError
                | Some c \<Rightarrow>
                    if \<not> py_hashable t then Inl TypeError
                    else if t \<notin> set valid_types then Inl InvalidObjectError
                    else (case map_of kvs ''metadata'' of
                            None \<Rightarrow> Inr ()
                          | Some m \<Rightarrow> if is_dict m then Inr () else Inl InvalidObjectError)))
      | _ \<Rightarrow> Inl InvalidObjectError)"

text \<open>
  \<^verbatim>\<open>extract_references\<close> calls \<^verbatim>\<open>obj_data.get\<close>, which only a dict has. The result is
  the Python set of references, in the order of insertion.
\<close>

definition extract_references :: "json \<Rightarrow> error + json list" where
  "extract_references obj_data =
     (case obj_data of
        JDict kvs \<Rightarrow>
          (let obj_type = map_of kvs ''type'';
               content = (case map_of kvs ''content'' of None \<Rightarrow> JDict [] | Some c \<Rightarrow> c)
           in if obj_type = Some (JStr ''snapshot'') then
                (case content of
                   JDict cs \<Rightarrow>
                     (case (case map_of cs ''bundles'' of
                              None \<Rightarrow> Inr []
                            | Some bs \<Rightarrow>
                                (case py_iter bs of Inl e \<Rightarrow> Inl e | Inr xs \<Rightarrow> set_update xs [])) of
                        Inl e \<Rightarrow> Inl e
                      | Inr refs \<Rightarrow>
                          (case map_of cs ''parent'' of
                             None \<Rightarrow> Inr refs
                           | Some p \<Rightarrow> if py_truthy p then set_add p refs else Inr refs))
                 | _ \<Rightarrow> Inr [])
              else if obj_type = Some (JStr ''tree'') then
                (case content of
                   JDict cs \<Rightarrow>
                     (case map_of cs ''children'' of
                        None \<Rightarrow> Inr []
                      | Some ch \<Rightarrow>
                          (case py_iter ch of Inl e \<Rightarrow> Inl e | Inr xs \<Rightarrow> set_update xs []))
                 | _ \<Rightarrow> Inr [])
              else Inr [])
      | _ \<Rightarrow> Inl AttributeError)"

section \<open>Storage layout (storage/layout.py)\<close>

text \<open>
  The file system under the store root is an association list from paths to file
  contents. A path is the list of its components, so \<open>[''objects'', ''ab'', ''abcd'']\<close>
  is \<^verbatim>\<open>objects/ab/abcd\<close>. Directories are implicit.

  The embedding takes a digest and a reference name as one component each. For a
  reference name that is what \<^verbatim>\<open>_sanitize_name\<close> ensures. For a digest it is what
  \<^verbatim>\<open>pathlib\<close> does when the digest is a file name, \<open>plain_name\<close>: it holds no
  separator and does not start with two dots. The hash function and the listing of the
  object directories give such digests. Of any other string \<^verbatim>\<open>pathlib\<close> makes another
  path (\<^verbatim>\<open>'abcd/'\<close> is the file of \<^verbatim>\<open>'abcd'\<close>), which the embedding does not follow:
  a statement about a digest that is read from a record or passed by a caller carries
  \<open>plain_name\<close> as a hypothesis.
\<close>

type_synonym path = "string list"
type_synonym filesystem = "(path \<times> bytes) list"

definition plain_name :: "string \<Rightarrow> bool" where
  "plain_name s \<longleftrightarrow> CHR ''/'' \<notin> set s \<and> CHR 0x00 \<notin> set s \<and> take 2 s \<noteq> ''..''"

definition get_object_path :: "digest \<Rightarrow> error + path" where
  "get_object_path obj_hash =
     (case get_hash_prefix obj_hash 2 of
        Inl e \<Rightarrow> Inl e
      | Inr prefix \<Rightarrow> Inr [''objects'', prefix, obj_hash])"

definition sanitize_name :: "string \<Rightarrow> error + string" where
  "sanitize_name name =
     (let name1 = map (\<lambda>c. if c = CHR ''/'' \<or> c = CHR 0x5C then CHR ''_'' else c) name;
          name2 = dropWhile (\<lambda>c. c = CHR ''.'') name1
      in if name2 = [] then Inl ValueError else Inr name2)"

definition get_snapshot_ref_path :: "string \<Rightarrow> error + path" where
  "get_snapshot_ref_path name =
     (case sanitize_name name of Inl e \<Rightarrow> Inl e | Inr safe_name \<Rightarrow> Inr [''snapshots'', safe_name])"

definition path_exists :: "filesystem \<Rightarrow> path \<Rightarrow> bool" where
  "path_exists fs p = (map_of fs p \<noteq> None)"

definition object_exists :: "filesystem \<Rightarrow> digest \<Rightarrow> error + bool" where
  "object_exists fs obj_hash =
     (case get_object_path obj_hash of Inl e \<Rightarrow> Inl e | Inr p \<Rightarrow> Inr (path_exists fs p))"

text \<open>\<^verbatim>\<open>list_all_objects\<close> returns the name of every file that lies directly in a
  directory directly under \<^verbatim>\<open>objects\<close>.\<close>

fun object_file_name :: "path \<Rightarrow> string option" where
  "object_file_name [d, prefix, name] = (if d = ''objects'' then Some name else None)"
| "object_file_name _ = None"

definition list_all_objects :: "filesystem \<Rightarrow> digest list" where
  "list_all_objects fs = List.map_filter (\<lambda>kv. object_file_name (fst kv)) fs"

section \<open>Object store (storage/object_store.py)\<close>

text \<open>
  What the operating system does to a write is the parameter \<open>fault\<close>: nothing, a failure
  to create the file, a failure of the write after some bytes, a failure of the rename,
  or a short write, where \<^verbatim>\<open>os.write\<close> writes the first \<open>k\<close> bytes only and returns
  that count. Reading a file that exists never fails here.
\<close>

datatype fault = NoFault | OpenFails | WriteFailsAfter nat | RenameFails | ShortWrite nat

text \<open>
  \<^verbatim>\<open>_write_object_atomic\<close>: \<^verbatim>\<open>mkstemp\<close> creates an empty file with a new name \<open>tmp\<close> in
  the directory of the target and fails when it cannot; the data is written to it with
  one call of \<^verbatim>\<open>os.write\<close>, whose count is not looked at; the file is renamed over the
  target. The handler removes the temporary file and raises StorageError.
\<close>

definition write_object_atomic ::
  "string \<Rightarrow> fault \<Rightarrow> filesystem \<Rightarrow> path \<Rightarrow> bytes \<Rightarrow> (error + unit) \<times> filesystem" where
  "write_object_atomic tmp flt fs p data =
     (let temp_path = butlast p @ [tmp]
      in if flt = OpenFails \<or> path_exists fs temp_path
         then (Inl (StorageError ''write_file''), fs)
         else
           (let fs1 = AList.update temp_path [] fs
            in case flt of
                 WriteFailsAfter k \<Rightarrow>
                   (let fs2 = AList.update temp_path (take k data) fs1
                    in (Inl (StorageError ''write_file''), AList.delete temp_path fs2))
               | RenameFails \<Rightarrow>
                   (let fs2 = AList.update temp_path data fs1
                    in (Inl (StorageError ''write_file''), AList.delete temp_path fs2))
               | ShortWrite k \<Rightarrow>
                   (let fs2 = AList.update temp_path (take k data) fs1
                    in (Inr (), AList.update p (take k data) (AList.delete temp_path fs2)))
               | _ \<Rightarrow>
                   (let fs2 = AList.update temp_path data fs1
                    in (Inr (), AList.update p data (AList.delete temp_path fs2)))))"


definition put_object ::
  "(bytes \<Rightarrow> load_error + json) \<Rightarrow> (bytes \<Rightarrow> digest) \<Rightarrow> string \<Rightarrow> fault \<Rightarrow> filesystem \<Rightarrow> json
     \<Rightarrow> (error + digest) \<times> filesystem" where
  "put_object loads H tmp flt fs obj_data =
     (case verify_object_structure obj_data of
        Inl e \<Rightarrow> (Inl e, fs)
      | Inr _ \<Rightarrow>
          (case compute_object_hash H obj_data of
             Inl e \<Rightarrow> (Inl e, fs)
           | Inr obj_hash \<Rightarrow>
               (case get_object_path obj_hash of
                  Inl e \<Rightarrow> (Inl e, fs)
                | Inr obj_path \<Rightarrow>
                    (let write =
                       (case canonical_json obj_data of
                          Inl e \<Rightarrow> (Inl e, fs)
                        | Inr canonical_bytes \<Rightarrow>
                            (case write_object_atomic tmp flt fs obj_path canonical_bytes of
                               (Inl e, fs') \<Rightarrow> (Inl e, fs')
                             | (Inr _, fs') \<Rightarrow> (Inr obj_hash, fs')))
                     in case map_of fs obj_path of
                          None \<Rightarrow> write
                        | Some existing_data \<Rightarrow>
                            (case loads existing_data of
                               Inr existing_obj \<Rightarrow>
                                 (case verify_object_integrity H existing_obj obj_hash of
                                    Inr _ \<Rightarrow> (Inr obj_hash, fs)
                                  | Inl (ObjectCorruptedError a b c) \<Rightarrow> write
                                  | Inl e \<Rightarrow> (Inl e, fs))
                             | Inl NotJSON \<Rightarrow> write
                             | Inl le \<Rightarrow> (Inl (load_exception le), fs))))))"

definition get_object ::
  "(bytes \<Rightarrow> load_error + json) \<Rightarrow> (bytes \<Rightarrow> digest) \<Rightarrow> filesystem \<Rightarrow> digest \<Rightarrow> bool \<Rightarrow> error + json" where
  "get_object loads H fs obj_hash verify =
     (case get_object_path obj_hash of
        Inl e \<Rightarrow> Inl e
      | Inr obj_path \<Rightarrow>
          (case map_of fs obj_path of
             None \<Rightarrow> Inl (ObjectNotFoundError obj_hash)
           | Some data \<Rightarrow>
               (case loads data of
                  Inl NotJSON \<Rightarrow> Inl (StorageError ''read_object'')
                | Inl le \<Rightarrow> Inl (load_exception le)
                | Inr obj_data \<Rightarrow>
                    if verify then
                      (case verify_object_structure obj_data of
                         Inl e \<Rightarrow> Inl e
                       | Inr _ \<Rightarrow>
                           (case verify_object_integrity H obj_data obj_hash of
                              Inl e \<Rightarrow> Inl e
                            | Inr _ \<Rightarrow> Inr obj_data))
                    else Inr obj_data)))"

definition has_object :: "filesystem \<Rightarrow> digest \<Rightarrow> error + bool" where
  "has_object fs obj_hash = object_exists fs obj_hash"

definition delete_object :: "filesystem \<Rightarrow> digest \<Rightarrow> (error + bool) \<times> filesystem" where
  "delete_object fs obj_hash =
     (case get_object_path obj_hash of
        Inl e \<Rightarrow> (Inl e, fs)
      | Inr obj_path \<Rightarrow>
          if \<not> path_exists fs obj_path then (Inr False, fs)
          else (Inr True, AList.delete obj_path fs))"


text \<open>
  A reference handed to the store by the verifier or the collector is whatever the
  reference fields of a stored object contain. Taking the length of a value that is not a
  string raises TypeError in \<^verbatim>\<open>get_hash_prefix\<close>.
\<close>

definition ref_exists :: "filesystem \<Rightarrow> json \<Rightarrow> error + bool" where
  "ref_exists fs r = (case r of JStr h \<Rightarrow> has_object fs h | _ \<Rightarrow> Inl TypeError)"

definition load_ref ::
  "(bytes \<Rightarrow> load_error + json) \<Rightarrow> (bytes \<Rightarrow> digest) \<Rightarrow> filesystem \<Rightarrow> json \<Rightarrow> error + json" where
  "load_ref loads H fs r = (case r of JStr h \<Rightarrow> get_object loads H fs h False | _ \<Rightarrow> Inl TypeError)"

section \<open>Garbage collector (storage/gc.py)\<close>

text \<open>
  The mark loop ends because every round either shortens the queue or marks a stored
  object that was not marked before. \<open>stored_digests\<close> is the finite set of digests
  that \<^verbatim>\<open>has_object\<close> accepts.
\<close>

definition stored_digests :: "filesystem \<Rightarrow> digest set" where
  "stored_digests fs = {h. has_object fs h = Inr True}"

lemma finite_stored_digests: "finite (stored_digests fs)"
proof -
  have "stored_digests fs \<subseteq> last ` fst ` set fs"
  proof
    fix h assume "h \<in> stored_digests fs"
    then have "map_of fs [''objects'', take 2 h, h] \<noteq> None"
      by (auto simp: stored_digests_def has_object_def object_exists_def get_object_path_def
          get_hash_prefix_def path_exists_def split: if_splits sum.splits)
    then have "[''objects'', take 2 h, h] \<in> fst ` set fs"
      by (simp add: map_of_eq_None_iff)
    then have "last [''objects'', take 2 h, h] \<in> last ` fst ` set fs"
      by (rule imageI)
    then show "h \<in> last ` fst ` set fs" by simp
  qed
  then show ?thesis by (rule finite_subset) simp
qed

lemma card_stored_digests_less:
  assumes "has_object fs h = Inr True" "h \<notin> set visited"
  shows "card (stored_digests fs - insert h (set visited)) < card (stored_digests fs - set visited)"
proof -
  have "h \<in> stored_digests fs - set visited"
    using assms by (simp add: stored_digests_def)
  then show ?thesis
    using finite_stored_digests[of fs] by (intro psubset_card_mono) auto
qed

definition ref_in :: "json \<Rightarrow> digest list \<Rightarrow> bool" where
  "ref_in r ds = (case r of JStr h \<Rightarrow> h \<in> set ds | _ \<Rightarrow> False)"

function mark_loop ::
  "(bytes \<Rightarrow> load_error + json) \<Rightarrow> (bytes \<Rightarrow> digest) \<Rightarrow> filesystem \<Rightarrow> json list \<Rightarrow> digest list
     \<Rightarrow> error + digest list" where
  "mark_loop loads H fs [] reachable = Inr reachable"
| "mark_loop loads H fs (obj_hash # queue) reachable =
     (if ref_in obj_hash reachable then mark_loop loads H fs queue reachable
      else case ref_exists fs obj_hash of
             Inl e \<Rightarrow> Inl e
           | Inr False \<Rightarrow> mark_loop loads H fs queue reachable
           | Inr True \<Rightarrow>
               (case obj_hash of
                  JStr h \<Rightarrow>
                    (let reachable' = reachable @ [h]
                     in case (case load_ref loads H fs obj_hash of
                                Inl e \<Rightarrow> Inl e
                              | Inr obj_data \<Rightarrow> extract_references obj_data) of
                          Inl e \<Rightarrow> mark_loop loads H fs queue reachable'
                        | Inr refs \<Rightarrow>
                            mark_loop loads H fs
                              (queue @ filter (\<lambda>r. \<not> ref_in r reachable') refs) reachable')
                | _ \<Rightarrow> Inl TypeError))"
  by pat_completeness auto
termination
  by (relation "inv_image (less_than <*lex*> less_than)
    (\<lambda>(loads, H, fs, queue, reachable). (card (stored_digests fs - set reachable), length queue))")
    (auto simp: wf_lex_prod card_stored_digests_less ref_in_def ref_exists_def)


datatype gc_message =
    MarkPhaseFailed error
  | SafetyViolation digest
  | FailedToDelete digest error

record gc_result =
  gc_reachable :: "digest list"
  gc_unreachable :: "digest list"
  gc_deleted :: "digest list"
  gc_errors :: "gc_message list"

fun sweep ::
  "digest list \<Rightarrow> digest list \<Rightarrow> digest list \<Rightarrow> gc_message list \<Rightarrow> filesystem
     \<Rightarrow> (digest list \<times> gc_message list) \<times> filesystem" where
  "sweep reachable [] deleted errs fs = ((deleted, errs), fs)"
| "sweep reachable (obj_hash # rest) deleted errs fs =
     (if obj_hash \<in> set reachable
      then sweep reachable rest deleted (errs @ [SafetyViolation obj_hash]) fs
      else case delete_object fs obj_hash of
             (Inl e, fs') \<Rightarrow> sweep reachable rest deleted (errs @ [FailedToDelete obj_hash e]) fs'
           | (Inr True, fs') \<Rightarrow> sweep reachable rest (deleted @ [obj_hash]) errs fs'
           | (Inr False, fs') \<Rightarrow> sweep reachable rest deleted errs fs')"

definition mark_reachable ::
  "(bytes \<Rightarrow> load_error + json) \<Rightarrow> (bytes \<Rightarrow> digest) \<Rightarrow> filesystem \<Rightarrow> digest list
     \<Rightarrow> error + digest list" where
  "mark_reachable loads H fs roots = mark_loop loads H fs (map JStr roots) []"

definition collect ::
  "(bytes \<Rightarrow> load_error + json) \<Rightarrow> (bytes \<Rightarrow> digest) \<Rightarrow> digest list \<Rightarrow> bool \<Rightarrow> filesystem
     \<Rightarrow> gc_result \<times> filesystem" where
  "collect loads H roots dry_run fs =
     (case mark_reachable loads H fs roots of
        Inl e \<Rightarrow>
          (\<lparr>gc_reachable = [], gc_unreachable = [], gc_deleted = [],
            gc_errors = [MarkPhaseFailed e]\<rparr>, fs)
      | Inr reachable \<Rightarrow>
          (let all_objects = remdups (list_all_objects fs);
               unreachable = filter (\<lambda>h. h \<notin> set reachable) all_objects
           in if \<not> dry_run \<and> unreachable \<noteq> []
              then (case sweep reachable unreachable [] [] fs of
                      ((deleted, errs), fs') \<Rightarrow>
                        (\<lparr>gc_reachable = reachable, gc_unreachable = unreachable,
                          gc_deleted = deleted, gc_errors = errs\<rparr>, fs'))
              else (\<lparr>gc_reachable = reachable, gc_unreachable = unreachable,
                     gc_deleted = [], gc_errors = []\<rparr>, fs)))"

text \<open>
  Reachability as the collector's contract states it: a root that is stored is
  reachable, and so is every stored object that a reachable object refers to. The
  references of an object are those that \<^verbatim>\<open>extract_references\<close> reads from its stored
  record: the bundles and the parent of a snapshot, the children of a tree.
\<close>

inductive reach ::
  "(bytes \<Rightarrow> load_error + json) \<Rightarrow> (bytes \<Rightarrow> digest) \<Rightarrow> filesystem \<Rightarrow> digest list \<Rightarrow> digest \<Rightarrow> bool"
  for loads H fs roots where
  reach_root: "r \<in> set roots \<Longrightarrow> has_object fs r = Inr True \<Longrightarrow> reach loads H fs roots r"
| reach_step: "reach loads H fs roots d \<Longrightarrow> get_object loads H fs d False = Inr obj_data \<Longrightarrow>
     extract_references obj_data = Inr refs \<Longrightarrow> JStr r \<in> set refs \<Longrightarrow>
     has_object fs r = Inr True \<Longrightarrow> reach loads H fs roots r"

text \<open>What the mark loop guarantees about its result \<open>res\<close>, given the queue and the
  set marked so far: the marked objects stay marked, every stored object in the queue gets
  marked, and every newly marked object has its stored references marked.\<close>

definition mark_inv ::
  "(bytes \<Rightarrow> load_error + json) \<Rightarrow> (bytes \<Rightarrow> digest) \<Rightarrow> filesystem \<Rightarrow> json list \<Rightarrow> digest list
     \<Rightarrow> digest list \<Rightarrow> bool" where
  "mark_inv loads H fs queue reachable res \<longleftrightarrow>
     set reachable \<subseteq> set res \<and>
     (\<forall>h. JStr h \<in> set queue \<longrightarrow> has_object fs h = Inr True \<longrightarrow> h \<in> set res) \<and>
     (\<forall>d \<in> set res - set reachable. \<forall>obj_data refs r.
         get_object loads H fs d False = Inr obj_data \<longrightarrow> extract_references obj_data = Inr refs \<longrightarrow>
         JStr r \<in> set refs \<longrightarrow> has_object fs r = Inr True \<longrightarrow> r \<in> set res)"

text \<open>A small store used to run the operations: a snapshot \<open>s1\<close> that refers to the
  bundle \<open>b1\<close>, an object \<open>g1\<close> that nothing refers to, and the reference
  \<open>main\<close>.\<close>

definition example_snapshot :: json where
  "example_snapshot =
     JDict [(''type'', JStr ''snapshot''), (''content'', JDict [(''bundles'', JList [JStr ''b1''])])]"

definition example_loads :: "bytes \<Rightarrow> load_error + json" where
  "example_loads data = (if data = ''S'' then Inr example_snapshot else Inl NotJSON)"

definition example_fs :: filesystem where
  "example_fs = [([''objects'', ''s1'', ''s1''], ''S''), ([''objects'', ''b1'', ''b1''], ''B''),
                 ([''objects'', ''g1'', ''g1''], ''G''), ([''snapshots'', ''main''], ''s1'')]"

text \<open>
  The state in which \<open>put_object\<close> returns early: the file of the record's digest is there,
  it parses, and the parsed record has that digest.
\<close>

definition already_stored ::
  "(bytes \<Rightarrow> load_error + json) \<Rightarrow> (bytes \<Rightarrow> digest) \<Rightarrow> filesystem \<Rightarrow> json \<Rightarrow> bool" where
  "already_stored loads H fs r \<longleftrightarrow>
     (\<exists>h p data existing_obj. compute_object_hash H r = Inr h \<and> get_object_path h = Inr p \<and>
        map_of fs p = Some data \<and> loads data = Inr existing_obj \<and>
        compute_object_hash H existing_obj = Inr h)"

text \<open>A parser and a hash function that know the one record of the example store.\<close>

definition example_parse :: "bytes \<Rightarrow> load_error + json" where
  "example_parse data =
     (if data = canonical_encoding example_snapshot then Inr example_snapshot else Inl NotJSON)"

definition example_hash :: "bytes \<Rightarrow> digest" where
  "example_hash data = (if data = canonical_encoding example_snapshot then ''h1'' else ''zz'')"

section \<open>Snapshot objects (model/snapshot.py)\<close>

text \<open>
  A snapshot has the three attributes that \<^verbatim>\<open>__init__\<close> sets. The parent is \<open>JNull\<close> for
  \<^verbatim>\<open>None\<close>. \<open>py_or\<close> is the Python expression \<^verbatim>\<open>a or b\<close>.
\<close>

record snapshot =
  snapshot_bundles :: "json list"
  snapshot_parent :: json
  snapshot_metadata :: json

definition py_or :: "json \<Rightarrow> json \<Rightarrow> json" where
  "py_or a b = (if py_truthy a then a else b)"

definition Snapshot_init :: "json list \<Rightarrow> json \<Rightarrow> json \<Rightarrow> snapshot" where
  "Snapshot_init bundles parent metadata =
     \<lparr>snapshot_bundles = bundles, snapshot_parent = parent,
      snapshot_metadata = py_or metadata (JDict [])\<rparr>"

definition Snapshot_to_dict :: "snapshot \<Rightarrow> json" where
  "Snapshot_to_dict self =
     (let content = [(''bundles'', JList (snapshot_bundles self))];
          content = (if py_truthy (snapshot_parent self)
                     then content @ [(''parent'', snapshot_parent self)] else content);
          obj = [(''type'', JStr ''snapshot''), (''content'', JDict content)];
          obj = (if py_truthy (snapshot_metadata self)
                 then obj @ [(''metadata'', snapshot_metadata self)] else obj)
      in JDict obj)"

text \<open>
  \<^verbatim>\<open>k in v\<close> for a string \<open>k\<close>: a key of a dict, an item of a list, a substring of a
  string; any other value is not a container.
\<close>

fun py_in_str :: "string \<Rightarrow> string \<Rightarrow> bool" where
  "py_in_str needle [] = (needle = [])"
| "py_in_str needle (c # cs) = (take (length needle) (c # cs) = needle \<or> py_in_str needle cs)"

fun py_contains :: "string \<Rightarrow> json \<Rightarrow> error + bool" where
  "py_contains k (JDict kvs) = Inr (map_of kvs k \<noteq> None)"
| "py_contains k (JList xs) = Inr (JStr k \<in> set xs)"
| "py_contains k (JStr s) = Inr (py_in_str k s)"
| "py_contains k _ = Inl TypeError"

text \<open>
  \<^verbatim>\<open>from_dict\<close> raises ValueError where it says so; \<^verbatim>\<open>data.get\<close> on a value that is
  not a dict raises AttributeError, and \<^verbatim>\<open>content['bundles']\<close> on a list or a string
  raises TypeError.
\<close>

definition Snapshot_from_dict :: "json \<Rightarrow> error + snapshot" where
  "Snapshot_from_dict data =
     (case data of
        JDict kvs \<Rightarrow>
          if map_of kvs ''type'' \<noteq> Some (JStr ''snapshot'') then Inl ValueError
          else
            (case map_of kvs ''content'' of
               None \<Rightarrow> Inl ValueError
             | Some content \<Rightarrow>
                 (case py_contains ''bundles'' content of
                    Inl e \<Rightarrow> Inl e
                  | Inr False \<Rightarrow> Inl ValueError
                  | Inr True \<Rightarrow>
                      (case content of
                         JDict cs \<Rightarrow>
                           (case map_of cs ''bundles'' of
                              Some (JList bundles) \<Rightarrow>
                                Inr (Snapshot_init bundles
                                       (case map_of cs ''parent'' of None \<Rightarrow> JNull | Some p \<Rightarrow> p)
                                       (case map_of kvs ''metadata'' of None \<Rightarrow> JDict [] | Some m \<Rightarrow> m))
                            | _ \<Rightarrow> Inl ValueError)
                       | _ \<Rightarrow> Inl TypeError)))
      | _ \<Rightarrow> Inl AttributeError)"

section \<open>Sync adapter (integration/sync_adapter.py)\<close>

text \<open>
  \<^verbatim>\<open>create_snapshot_from_bundles\<close> takes a list of digests, a parent that is a digest or
  \<^verbatim>\<open>None\<close>, and the metadata. The loop over the bundles is \<open>bundles_exist\<close>.
\<close>

fun bundles_exist :: "filesystem \<Rightarrow> digest list \<Rightarrow> error + unit" where
  "bundles_exist fs [] = Inr ()"
| "bundles_exist fs (bundle_hash # rest) =
     (case has_object fs bundle_hash of
        Inl e \<Rightarrow> Inl e
      | Inr False \<Rightarrow> Inl InvalidObjectError
      | Inr True \<Rightarrow> bundles_exist fs rest)"

definition create_snapshot_from_bundles ::
  "(bytes \<Rightarrow> load_error + json) \<Rightarrow> (bytes \<Rightarrow> digest) \<Rightarrow> string \<Rightarrow> fault \<Rightarrow> filesystem
     \<Rightarrow> digest list \<Rightarrow> json \<Rightarrow> json \<Rightarrow> (error + digest) \<times> filesystem" where
  "create_snapshot_from_bundles loads H tmp flt fs bundle_hashes parent metadata =
     (case bundles_exist fs bundle_hashes of
        Inl e \<Rightarrow> (Inl e, fs)
      | Inr _ \<Rightarrow>
          put_object loads H tmp flt fs
            (Snapshot_to_dict (Snapshot_init (map JStr bundle_hashes) parent metadata)))"

text \<open>
  The loop of \<^verbatim>\<open>get_snapshot_chain\<close>. \<open>current\<close> is the parent attribute of the snapshot
  read last, so it is whatever the stored record holds. A value that is not a string
  raises TypeError, in the membership test when it is a list or a dict and in
  \<^verbatim>\<open>get_object\<close> otherwise. The loop ends because every round adds a stored digest to
  \<open>visited\<close>.
\<close>

lemma get_object_stored:
  assumes "get_object loads H fs h verify = Inr obj_data"
  shows "has_object fs h = Inr True"
  using assms
  by (auto simp: get_object_def has_object_def object_exists_def path_exists_def
      split: sum.splits option.splits)

function chain_loop ::
  "(bytes \<Rightarrow> load_error + json) \<Rightarrow> (bytes \<Rightarrow> digest) \<Rightarrow> filesystem \<Rightarrow> json \<Rightarrow> digest list
     \<Rightarrow> digest list \<Rightarrow> error + digest list" where
  "chain_loop loads H fs current visited chain =
     (if \<not> py_truthy current then Inr (rev chain)
      else case current of
             JStr h \<Rightarrow>
               if h \<in> set visited then Inl InvalidObjectError
               else (case get_object loads H fs h True of
                       Inl e \<Rightarrow> Inl e
                     | Inr obj_data \<Rightarrow>
                         (case Snapshot_from_dict obj_data of
                            Inl e \<Rightarrow> Inl e
                          | Inr snapshot \<Rightarrow>
                              chain_loop loads H fs (snapshot_parent snapshot)
                                (visited @ [h]) (chain @ [h])))
           | _ \<Rightarrow> Inl TypeError)"
  by pat_completeness auto
termination
  by (relation "measure (\<lambda>(loads, H, fs, current, visited, chain).
        card (stored_digests fs - set visited))")
    (auto simp: card_stored_digests_less get_object_stored)

definition get_snapshot_chain ::
  "(bytes \<Rightarrow> load_error + json) \<Rightarrow> (bytes \<Rightarrow> digest) \<Rightarrow> filesystem \<Rightarrow> digest
     \<Rightarrow> error + digest list" where
  "get_snapshot_chain loads H fs snapshot_hash = chain_loop loads H fs (JStr snapshot_hash) [] []"

text \<open>The parent that the chain walk reads for a digest, when it can read one.\<close>

definition parent_of ::
  "(bytes \<Rightarrow> load_error + json) \<Rightarrow> (bytes \<Rightarrow> digest) \<Rightarrow> filesystem \<Rightarrow> digest \<Rightarrow> json option" where
  "parent_of loads H fs h =
     (case get_object loads H fs h True of
        Inl e \<Rightarrow> None
      | Inr obj_data \<Rightarrow>
          (case Snapshot_from_dict obj_data of Inl e \<Rightarrow> None | Inr s \<Rightarrow> Some (snapshot_parent s)))"

text \<open>\<open>parent_links\<close>: each digest of the list has the next one as its parent.\<close>

fun parent_links ::
  "(bytes \<Rightarrow> load_error + json) \<Rightarrow> (bytes \<Rightarrow> digest) \<Rightarrow> filesystem \<Rightarrow> digest list \<Rightarrow> bool" where
  "parent_links loads H fs (h # h' # hs) =
     (parent_of loads H fs h = Some (JStr h') \<and> parent_links loads H fs (h' # hs))"
| "parent_links loads H fs _ = True"

text \<open>
  The parent pointers as the files of the store give them, read without verification:
  \<open>stored_parent\<close> and \<open>stored_links\<close>. A digest verifies when \<open>get_object\<close> returns
  its record with verification on.
\<close>

definition stored_parent ::
  "(bytes \<Rightarrow> load_error + json) \<Rightarrow> (bytes \<Rightarrow> digest) \<Rightarrow> filesystem \<Rightarrow> digest \<Rightarrow> json option" where
  "stored_parent loads H fs h =
     (case get_object loads H fs h False of
        Inl e \<Rightarrow> None
      | Inr obj_data \<Rightarrow>
          (case Snapshot_from_dict obj_data of Inl e \<Rightarrow> None | Inr s \<Rightarrow> Some (snapshot_parent s)))"

fun stored_links ::
  "(bytes \<Rightarrow> load_error + json) \<Rightarrow> (bytes \<Rightarrow> digest) \<Rightarrow> filesystem \<Rightarrow> digest list \<Rightarrow> bool" where
  "stored_links loads H fs (h # h' # hs) =
     (stored_parent loads H fs h = Some (JStr h') \<and> stored_links loads H fs (h' # hs))"
| "stored_links loads H fs _ = True"

definition verifies ::
  "(bytes \<Rightarrow> load_error + json) \<Rightarrow> (bytes \<Rightarrow> digest) \<Rightarrow> filesystem \<Rightarrow> digest \<Rightarrow> bool" where
  "verifies loads H fs h = (\<not> isl (get_object loads H fs h True))"

declare chain_loop.simps [simp del]

text \<open>
  Two stores for the chain walk. In the first the snapshot \<open>k2\<close> has the parent \<open>r1\<close>,
  which has none. In the second the hash function gives the one snapshot its own parent
  as digest, so that the walk from \<open>c1\<close> comes back to \<open>c1\<close>.
\<close>

definition example_root :: json where
  "example_root = JDict [(''type'', JStr ''snapshot''), (''content'', JDict [(''bundles'', JList [])])]"

definition example_child :: json where
  "example_child =
     JDict [(''type'', JStr ''snapshot''),
            (''content'', JDict [(''bundles'', JList []), (''parent'', JStr ''r1'')])]"

definition example_chain_loads :: "bytes \<Rightarrow> load_error + json" where
  "example_chain_loads data =
     (if data = ''R'' then Inr example_root
      else if data = ''K'' then Inr example_child else Inl NotJSON)"

definition example_chain_hash :: "bytes \<Rightarrow> digest" where
  "example_chain_hash data = (if data = canonical_encoding example_root then ''r1'' else ''k2'')"

definition example_chain_fs :: filesystem where
  "example_chain_fs = [([''objects'', ''r1'', ''r1''], ''R''), ([''objects'', ''k2'', ''k2''], ''K'')]"

definition example_cycle_snapshot :: json where
  "example_cycle_snapshot =
     JDict [(''type'', JStr ''snapshot''),
            (''content'', JDict [(''bundles'', JList []), (''parent'', JStr ''c1'')])]"

definition example_cycle_loads :: "bytes \<Rightarrow> load_error + json" where
  "example_cycle_loads data = (if data = ''C'' then Inr example_cycle_snapshot else Inl NotJSON)"

definition example_cycle_fs :: filesystem where
  "example_cycle_fs = [([''objects'', ''c1'', ''c1''], ''C'')]"

text \<open>
  A store whose root snapshot \<open>r1\<close> lists the bundle \<open>b1\<close> and, after it, a list where a
  digest should be.
\<close>

definition example_listing :: json where
  "example_listing =
     JDict [(''type'', JStr ''snapshot''),
            (''content'', JDict [(''bundles'', JList [JStr ''b1'', JList [JStr ''x'']])])]"

definition example_listing_loads :: "bytes \<Rightarrow> load_error + json" where
  "example_listing_loads data = (if data = ''R'' then Inr example_listing else Inl NotJSON)"

definition example_listing_fs :: filesystem where
  "example_listing_fs = [([''objects'', ''r1'', ''r1''], ''R''), ([''objects'', ''b1'', ''b1''], ''B'')]"

section \<open>Recursive verification of a snapshot (integrity/verification.py)\<close>



definition obj_type :: "json \<Rightarrow> json option" where
  "obj_type obj_data = (case obj_data of JDict kvs \<Rightarrow> map_of kvs ''type'' | _ \<Rightarrow> None)"



















section \<open>Properties of the canonical encoding\<close>

lemma same_keys:
  assumes "distinct (map fst xs)" "distinct (map fst ys)" "length xs = length ys"
    "\<forall>kv\<in>set xs. map_of ys (fst kv) \<noteq> None"
  shows "set (map fst xs) = set (map fst ys)"
proof -
  have sub: "set (map fst xs) \<subseteq> set (map fst ys)"
    using assms(4) by (auto simp: map_of_eq_None_iff)
  have "card (set (map fst xs)) = length xs" "card (set (map fst ys)) = length ys"
    using assms(1,2) distinct_card[of "map fst xs"] distinct_card[of "map fst ys"] by simp_all
  with sub assms(3) show ?thesis by (simp add: card_subset_eq)
qed

lemma sorted_items_keys:
  assumes "distinct (map fst xs)" "distinct (map fst ys)" "set (map fst xs) = set (map fst ys)"
  shows "map fst (sort_key fst xs) = map fst (sort_key fst ys)"
proof (rule sorted_distinct_set_unique)
  show "sorted (map fst (sort_key fst xs))" "sorted (map fst (sort_key fst ys))"
    by (rule sorted_sort_key)+
  show "distinct (map fst (sort_key fst xs))" using assms(1)
    by (metis distinct_map distinct_sort set_sort)
  show "distinct (map fst (sort_key fst ys))" using assms(2)
    by (metis distinct_map distinct_sort set_sort)
  show "set (map fst (sort_key fst xs)) = set (map fst (sort_key fst ys))"
    using assms(3) by simp
qed

lemma sorted_items_encode:
  assumes dx: "distinct (map fst xs)" and dy: "distinct (map fst ys)"
    and len: "length xs = length ys"
    and eqv: "\<forall>kv\<in>set xs. case map_of ys (fst kv) of None \<Rightarrow> False | Some w \<Rightarrow> f (snd kv) = f w"
  shows "map (\<lambda>kv. g (fst kv) @ f (snd kv)) (sort_key fst xs) =
         map (\<lambda>kv. g (fst kv) @ f (snd kv)) (sort_key fst ys)"
proof -
  let ?sx = "sort_key fst xs" and ?sy = "sort_key fst ys"
  have "\<forall>kv\<in>set xs. map_of ys (fst kv) \<noteq> None"
    using eqv by (auto split: option.splits)
  then have keys: "map fst ?sx = map fst ?sy"
    using same_keys[OF dx dy len] sorted_items_keys[OF dx dy] by blast
  have l: "length ?sx = length ?sy" using len by simp
  have "f (snd (?sx ! i)) = f (snd (?sy ! i))" if i: "i < length ?sx" for i
  proof -
    have mx: "?sx ! i \<in> set xs" using i by (metis nth_mem set_sort)
    have my: "?sy ! i \<in> set ys" using i l by (metis nth_mem set_sort)
    have k: "fst (?sx ! i) = fst (?sy ! i)"
      using keys i l by (metis length_map nth_map)
    have "map_of ys (fst (?sy ! i)) = Some (snd (?sy ! i))"
      using dy my by simp
    with k eqv mx show ?thesis by (auto split: option.splits)
  qed
  moreover have "fst (?sx ! i) = fst (?sy ! i)" if "i < length ?sx" for i
    using keys that l by (metis length_map nth_map)
  ultimately show ?thesis using l by (intro nth_equalityI) simp_all
qed

lemma dumps_json_same:
  "json_same a b \<Longrightarrow> wf_json a \<Longrightarrow> wf_json b \<Longrightarrow> dumps a = dumps b"
proof (induction a b rule: json_same.induct)
  case (1 xs ys)
  have "map dumps xs = map dumps ys"
    using "1.prems" "1.IH"
    by (auto simp: list_all2_conv_all_nth list_eq_iff_nth_eq)
  then show ?case by simp
next
  case (2 xs ys)
  have dx: "distinct (map fst xs)" and dy: "distinct (map fst ys)"
    using "2.prems" by simp_all
  have len: "length xs = length ys" using "2.prems" by simp
  have eqv: "\<forall>kv\<in>set xs. case map_of ys (fst kv) of None \<Rightarrow> False
               | Some w \<Rightarrow> dumps (snd kv) = dumps w"
  proof
    fix kv assume kv: "kv \<in> set xs"
    show "case map_of ys (fst kv) of None \<Rightarrow> False | Some w \<Rightarrow> dumps (snd kv) = dumps w"
    proof (cases "map_of ys (fst kv)")
      case None
      with kv "2.prems"(1) show ?thesis by (auto split: option.splits)
    next
      case (Some w)
      have "json_same (snd kv) w" using kv Some "2.prems"(1) by (auto split: option.splits)
      moreover have "wf_json (snd kv)" using kv "2.prems"(2) by simp
      moreover have "wf_json w" using Some "2.prems"(3) by (auto dest: map_of_SomeD)
      ultimately show ?thesis using "2.IH"[OF kv Some] Some by simp
    qed
  qed
  show ?case
    using sorted_items_encode[OF dx dy len eqv, of "\<lambda>k. encode_basestring k @ '':''"]
    by simp
qed simp_all

lemma out_of_range_json_same:
  "json_same a b \<Longrightarrow> wf_json a \<Longrightarrow> wf_json b \<Longrightarrow> out_of_range a = out_of_range b"
proof (induction a b rule: json_same.induct)
  case (1 xs ys)
  have len: "length xs = length ys" using "1.prems"(1) by (simp add: list_all2_lengthD)
  have nth: "out_of_range (xs ! i) = out_of_range (ys ! i)" if "i < length xs" for i
  proof -
    have "json_same (xs ! i) (ys ! i)"
      using "1.prems"(1) that by (simp add: list_all2_conv_all_nth)
    moreover have "xs ! i \<in> set xs" "ys ! i \<in> set ys" using that len by simp_all
    ultimately show ?thesis using "1.IH" "1.prems"(2,3) by simp
  qed
  have "(\<exists>x \<in> set xs. out_of_range x) = (\<exists>y \<in> set ys. out_of_range y)"
    using nth len by (metis in_set_conv_nth)
  then show ?case by simp
next
  case (2 xs ys)
  have dx: "distinct (map fst xs)" and dy: "distinct (map fst ys)"
    using "2.prems" by simp_all
  have len: "length xs = length ys" using "2.prems" by simp
  have rel: "\<exists>w. map_of ys (fst kv) = Some w \<and> out_of_range (snd kv) = out_of_range w"
    if kv: "kv \<in> set xs" for kv
  proof (cases "map_of ys (fst kv)")
    case None
    with kv "2.prems"(1) show ?thesis by (auto split: option.splits)
  next
    case (Some w)
    have "json_same (snd kv) w" using kv Some "2.prems"(1) by (auto split: option.splits)
    moreover have "wf_json (snd kv)" using kv "2.prems"(2) by simp
    moreover have "wf_json w" using Some "2.prems"(3) by (auto dest: map_of_SomeD)
    ultimately show ?thesis using "2.IH"[OF kv Some] Some by simp
  qed
  have "\<forall>kv\<in>set xs. map_of ys (fst kv) \<noteq> None" using rel by auto
  from same_keys[OF dx dy len this] have keys: "set (map fst xs) = set (map fst ys)" .
  have "(\<exists>kv \<in> set xs. out_of_range (snd kv)) = (\<exists>kv \<in> set ys. out_of_range (snd kv))"
  proof
    assume "\<exists>kv \<in> set xs. out_of_range (snd kv)"
    then obtain kv where kv: "kv \<in> set xs" "out_of_range (snd kv)" by blast
    from rel[OF kv(1)] obtain w where w: "map_of ys (fst kv) = Some w" "out_of_range w"
      using kv(2) by auto
    from w(1) have "(fst kv, w) \<in> set ys" by (rule map_of_SomeD)
    with w(2) show "\<exists>kv \<in> set ys. out_of_range (snd kv)" by force
  next
    assume "\<exists>kv \<in> set ys. out_of_range (snd kv)"
    then obtain kv' where kv': "kv' \<in> set ys" "out_of_range (snd kv')" by blast
    then have "fst kv' \<in> set (map fst xs)" using keys by force
    then obtain kv where kv: "kv \<in> set xs" "fst kv = fst kv'" by auto
    have "map_of ys (fst kv') = Some (snd kv')" using dy kv'(1) by simp
    with rel[OF kv(1)] kv(2) kv'(2) have "out_of_range (snd kv)" by simp
    with kv(1) show "\<exists>kv \<in> set xs. out_of_range (snd kv)" by blast
  qed
  then show ?case by simp
qed simp_all

lemma canonical_json_example:
  "canonical_json (JDict [(''b'', JInt 2), (''a'', JInt 1), (''c'', JInt 3)]) = Inr ''{\"a\":1,\"b\":2,\"c\":3}''"
  "canonical_json (JDict [(''a'', JInt 1), (''c'', JInt 3), (''b'', JInt 2)]) = Inr ''{\"a\":1,\"b\":2,\"c\":3}''"
  by (simp_all add: canonical_json_def canonical_encoding_def utf8_encode_def utf8_char_def
      encode_basestring_def escape_char_def dec_int_def dec_nat.simps digit_char_def)

text \<open>
  The dicts \<^verbatim>\<open>{"a": True}\<close> and \<^verbatim>\<open>{"a": 1}\<close> are equal in Python and have different
  canonical bytes; so have the floats \<^verbatim>\<open>0.0\<close> and \<^verbatim>\<open>-0.0\<close>. The encoder writes each
  value by its type.
\<close>

theorem canonical_json_equal_values_differ:
  "wf_json (JDict [(''a'', JBool True)]) \<and> wf_json (JDict [(''a'', JInt 1)]) \<and>
   json_eq (JDict [(''a'', JBool True)]) (JDict [(''a'', JInt 1)]) \<and>
   canonical_json (JDict [(''a'', JBool True)]) = Inr ''{\"a\":true}'' \<and>
   canonical_json (JDict [(''a'', JInt 1)]) = Inr ''{\"a\":1}'' \<and>
   json_eq (JFloat (PyFinite 0 0 ''0.0'')) (JFloat (PyFinite 0 0 ''-0.0'')) \<and>
   canonical_json (JFloat (PyFinite 0 0 ''0.0'')) = Inr ''0.0'' \<and>
   canonical_json (JFloat (PyFinite 0 0 ''-0.0'')) = Inr ''-0.0''"
  by (simp add: scalar_eq_def canonical_json_def canonical_encoding_def utf8_encode_def
      utf8_char_def encode_basestring_def escape_char_def dec_int_def dec_nat.simps digit_char_def)

text \<open>
  Claim C8. Two records that are the same value with the types kept apart, dicts compared
  without regard to the order of their keys, lists position by position, and at each
  place the same boolean, integer, float or string, have the same outcome of
  \<open>canonical_json\<close>: the same bytes, or ValueError for both when they hold a float that
  is not finite. In particular the dict \<^verbatim>\<open>{"b":2,"a":1,"c":3}\<close> and the dict
  \<^verbatim>\<open>{"a":1,"c":3,"b":2}\<close> are both encoded as the bytes \<^verbatim>\<open>{"a":1,"b":2,"c":3}\<close>.
\<close>

theorem canonical_json_deterministic:
  "(\<forall>a b. wf_json a \<longrightarrow> wf_json b \<longrightarrow> json_same a b \<longrightarrow> canonical_json a = canonical_json b) \<and>
   canonical_json (JDict [(''b'', JInt 2), (''a'', JInt 1), (''c'', JInt 3)]) = Inr ''{\"a\":1,\"b\":2,\"c\":3}'' \<and>
   canonical_json (JDict [(''a'', JInt 1), (''c'', JInt 3), (''b'', JInt 2)]) = Inr ''{\"a\":1,\"b\":2,\"c\":3}''"
  using dumps_json_same out_of_range_json_same canonical_json_example
  by (simp add: canonical_json_def canonical_encoding_def)

theorem canonical_json_deterministic_witness:
  "wf_json (JDict [(''x'', JList [JInt 1, JFloat (PyFinite 3 (-1) ''1.5'')]), (''k'', JDict [(''b'', JNull), (''a'', JBool True)])]) \<and>
   wf_json (JDict [(''k'', JDict [(''a'', JBool True), (''b'', JNull)]), (''x'', JList [JInt 1, JFloat (PyFinite 3 (-1) ''1.5'')])]) \<and>
   json_same (JDict [(''x'', JList [JInt 1, JFloat (PyFinite 3 (-1) ''1.5'')]), (''k'', JDict [(''b'', JNull), (''a'', JBool True)])])
           (JDict [(''k'', JDict [(''a'', JBool True), (''b'', JNull)]), (''x'', JList [JInt 1, JFloat (PyFinite 3 (-1) ''1.5'')])]) \<and>
   canonical_json (JDict [(''x'', JList [JInt 1, JFloat (PyFinite 3 (-1) ''1.5'')]), (''k'', JDict [(''b'', JNull), (''a'', JBool True)])]) =
   canonical_json (JDict [(''k'', JDict [(''a'', JBool True), (''b'', JNull)]), (''x'', JList [JInt 1, JFloat (PyFinite 3 (-1) ''1.5'')])])"
proof -
  let ?a = "JDict [(''x'', JList [JInt 1, JFloat (PyFinite 3 (-1) ''1.5'')]), (''k'', JDict [(''b'', JNull), (''a'', JBool True)])]"
  let ?b = "JDict [(''k'', JDict [(''a'', JBool True), (''b'', JNull)]), (''x'', JList [JInt 1, JFloat (PyFinite 3 (-1) ''1.5'')])]"
  have wa: "wf_json ?a" and wb: "wf_json ?b" by simp_all
  have e: "json_same ?a ?b" by simp
  note same = canonical_json_deterministic[THEN conjunct1, rule_format, OF wa wb e]
  from wa wb e same show ?thesis by (intro conjI)
qed

section \<open>Garbage collection: what is kept and what is not\<close>

lemma has_object_path:
  "has_object fs h = Inr b \<Longrightarrow> get_object_path h = Inr [''objects'', take 2 h, h] \<and>
     b = (map_of fs [''objects'', take 2 h, h] \<noteq> None)"
  by (auto simp: has_object_def object_exists_def get_object_path_def get_hash_prefix_def
      path_exists_def split: if_splits sum.splits)

lemma get_object_path_inj:
  "get_object_path d = Inr p \<Longrightarrow> get_object_path h = Inr p \<Longrightarrow> d = h"
  by (auto simp: get_object_path_def get_hash_prefix_def split: if_splits)

lemma mark_inv_skip_marked:
  assumes "mark_inv loads H fs queue reachable res" "ref_in obj_hash reachable"
  shows "mark_inv loads H fs (obj_hash # queue) reachable res"
  using assms unfolding mark_inv_def ref_in_def
  by (cases obj_hash) auto

lemma mark_inv_skip_absent:
  assumes "mark_inv loads H fs queue reachable res" "ref_exists fs obj_hash = Inr False"
  shows "mark_inv loads H fs (obj_hash # queue) reachable res"
  using assms unfolding mark_inv_def ref_exists_def
  by (cases obj_hash) auto

lemma mark_inv_no_refs:
  assumes inv: "mark_inv loads H fs queue (reachable @ [h]) res"
    and nos: "\<And>obj_data refs. get_object loads H fs h False = Inr obj_data \<Longrightarrow>
                 extract_references obj_data \<noteq> Inr refs"
  shows "mark_inv loads H fs (JStr h # queue) reachable res"
  unfolding mark_inv_def
proof (intro conjI allI impI ballI)
  show "set reachable \<subseteq> set res" using inv by (simp add: mark_inv_def)
next
  fix x assume "JStr x \<in> set (JStr h # queue)" "has_object fs x = Inr True"
  then show "x \<in> set res" using inv by (auto simp: mark_inv_def)
next
  fix d obj_data refs r
  assume d: "d \<in> set res - set reachable"
    and g: "get_object loads H fs d False = Inr obj_data" "extract_references obj_data = Inr refs"
      "JStr r \<in> set refs" "has_object fs r = Inr True"
  show "r \<in> set res"
  proof (cases "d = h")
    case True
    with g nos show ?thesis by blast
  next
    case False
    with d have "d \<in> set res - set (reachable @ [h])" by simp
    with inv g show ?thesis unfolding mark_inv_def by blast
  qed
qed

lemma mark_inv_refs:
  assumes inv: "mark_inv loads H fs (queue @ filter (\<lambda>r. \<not> ref_in r (reachable @ [h])) refs)
                  (reachable @ [h]) res"
    and suc: "\<And>obj_data rs. get_object loads H fs h False = Inr obj_data \<Longrightarrow>
                 extract_references obj_data = Inr rs \<Longrightarrow> rs = refs"
  shows "mark_inv loads H fs (JStr h # queue) reachable res"
  unfolding mark_inv_def
proof (intro conjI allI impI ballI)
  show "set reachable \<subseteq> set res" using inv by (simp add: mark_inv_def)
next
  fix x assume "JStr x \<in> set (JStr h # queue)" "has_object fs x = Inr True"
  then show "x \<in> set res" using inv by (auto simp: mark_inv_def)
next
  fix d obj_data rs r
  assume d: "d \<in> set res - set reachable"
    and g: "get_object loads H fs d False = Inr obj_data" "extract_references obj_data = Inr rs"
      "JStr r \<in> set rs" "has_object fs r = Inr True"
  show "r \<in> set res"
  proof (cases "d = h")
    case True
    then have rs: "rs = refs" using suc g(1,2) by blast
    show ?thesis
    proof (cases "ref_in (JStr r) (reachable @ [h])")
      case True
      then have "r \<in> set (reachable @ [h])" by (simp add: ref_in_def)
      then show ?thesis using inv unfolding mark_inv_def by blast
    next
      case False
      with g(3) rs have "JStr r \<in> set (queue @ filter (\<lambda>r. \<not> ref_in r (reachable @ [h])) refs)"
        by simp
      then show ?thesis using inv g(4) unfolding mark_inv_def by blast
    qed
  next
    case False
    with d have "d \<in> set res - set (reachable @ [h])" by simp
    with inv g show ?thesis unfolding mark_inv_def by blast
  qed
qed

lemma mark_loop_invariant:
  "mark_loop loads H fs queue reachable = Inr res \<Longrightarrow> mark_inv loads H fs queue reachable res"
proof (induction loads H fs queue reachable arbitrary: res rule: mark_loop.induct)
  case (1 loads H fs reachable)
  then show ?case by (simp add: mark_inv_def)
next
  case (2 loads H fs obj_hash queue reachable)
  show ?case
  proof (cases "ref_in obj_hash reachable")
    case True
    with "2.prems" have "mark_loop loads H fs queue reachable = Inr res" by simp
    from mark_inv_skip_marked[OF "2.IH"(1)[OF True this] True] show ?thesis .
  next
    case nin: False
    show ?thesis
    proof (cases "ref_exists fs obj_hash")
      case (Inl e)
      with nin "2.prems" show ?thesis by simp
    next
      case (Inr b)
      show ?thesis
      proof (cases b)
        case False
        with nin Inr "2.prems" have m: "mark_loop loads H fs queue reachable = Inr res" by simp
        have bF: "b = False" using False by simp
        from mark_inv_skip_absent[OF "2.IH"(4)[OF nin Inr bF m]] Inr bF show ?thesis by simp
      next
        case True
        then obtain h where h: "obj_hash = JStr h"
          using Inr by (auto simp: ref_exists_def split: json.splits)
        have bT: "b = True" using True by simp
        let ?succ = "case load_ref loads H fs obj_hash of Inl e \<Rightarrow> Inl e
                      | Inr obj_data \<Rightarrow> extract_references obj_data"
        show ?thesis
        proof (cases ?succ)
          case (Inl e)
          with nin Inr bT h "2.prems" have m: "mark_loop loads H fs queue (reachable @ [h]) = Inr res"
            by simp
          have nos: "\<And>obj_data refs. get_object loads H fs h False = Inr obj_data \<Longrightarrow>
                       extract_references obj_data \<noteq> Inr refs"
            using Inl h by (auto simp: load_ref_def split: sum.splits)
          from mark_inv_no_refs[OF "2.IH"(2)[OF nin Inr bT h refl Inl m] nos] h show ?thesis
            by simp
        next
          case (Inr refs)
          with nin \<open>ref_exists fs obj_hash = Inr b\<close> bT h "2.prems"
          have m: "mark_loop loads H fs (queue @ filter (\<lambda>r. \<not> ref_in r (reachable @ [h])) refs)
                     (reachable @ [h]) = Inr res"
            by (simp add: Let_def)
          have suc: "\<And>obj_data rs. get_object loads H fs h False = Inr obj_data \<Longrightarrow>
                 extract_references obj_data = Inr rs \<Longrightarrow> rs = refs"
            using Inr h by (simp add: load_ref_def)
          from mark_inv_refs[OF "2.IH"(3)[OF nin \<open>ref_exists fs obj_hash = Inr b\<close> bT h refl Inr m] suc] h
          show ?thesis by simp
        qed
      qed
    qed
  qed
qed

lemma mark_reachable_complete:
  assumes "mark_reachable loads H fs roots = Inr res" "reach loads H fs roots d"
  shows "d \<in> set res"
  using assms(2)
proof (induction rule: reach.induct)
  case (reach_root r)
  with mark_loop_invariant[OF assms(1)[unfolded mark_reachable_def]] show ?case
    unfolding mark_inv_def by auto
next
  case (reach_step d obj_data refs r)
  with mark_loop_invariant[OF assms(1)[unfolded mark_reachable_def]] show ?case
    unfolding mark_inv_def by (metis Diff_iff empty_iff list.set(1))
qed

lemma delete_object_other:
  assumes "delete_object fs h = (res, fs')" "get_object_path d = Inr p" "d \<noteq> h"
  shows "map_of fs' p = map_of fs p"
  using assms get_object_path_inj[of d p h]
  by (auto simp: delete_object_def AList.delete_conv' split: sum.splits if_splits)

lemma sweep_keeps:
  assumes "sweep reachable us deleted errs fs = ((deleted', errs'), fs')"
    "d \<in> set reachable" "d \<notin> set deleted"
  shows "d \<notin> set deleted' \<and> (\<forall>p. get_object_path d = Inr p \<longrightarrow> map_of fs' p = map_of fs p)"
  using assms
proof (induction us arbitrary: deleted errs fs)
  case Nil
  then show ?case by simp
next
  case (Cons u us)
  show ?case
  proof (cases "u \<in> set reachable")
    case True
    with Cons.prems Cons.IH[of deleted "errs @ [SafetyViolation u]" fs] show ?thesis by simp
  next
    case False
    then have ne: "d \<noteq> u" using Cons.prems(2) by auto
    obtain r fs1 where del: "delete_object fs u = (r, fs1)" by (cases "delete_object fs u")
    have keep: "\<forall>p. get_object_path d = Inr p \<longrightarrow> map_of fs1 p = map_of fs p"
      using delete_object_other[OF del _ ne] by blast
    show ?thesis
    proof (cases r)
      case (Inl e)
      with False del Cons.prems have "sweep reachable us deleted (errs @ [FailedToDelete u e]) fs1 = ((deleted', errs'), fs')"
        by simp
      from Cons.IH[OF this Cons.prems(2,3)] keep show ?thesis by simp
    next
      case (Inr b)
      show ?thesis
      proof (cases b)
        case True
        with Inr False del Cons.prems have "sweep reachable us (deleted @ [u]) errs fs1 = ((deleted', errs'), fs')"
          by simp
        from Cons.IH[OF this Cons.prems(2)] ne Cons.prems(3) keep show ?thesis by simp
      next
        case False
        with Inr \<open>u \<notin> set reachable\<close> del Cons.prems have "sweep reachable us deleted errs fs1 = ((deleted', errs'), fs')"
          by simp
        from Cons.IH[OF this Cons.prems(2,3)] keep show ?thesis by simp
      qed
    qed
  qed
qed

text \<open>
  What the collector keeps: every stored object that its own walk can reach, that is a
  stored root and every stored object among the references that \<open>extract_references\<close>
  returns for a reachable object that loads.
\<close>

lemma gc_keeps_traced:
  assumes "reach loads H fs roots d" "collect loads H roots False fs = (result, fs')"
  shows "d \<notin> set (gc_deleted result) \<and> has_object fs' d = Inr True \<and>
         (\<forall>p. get_object_path d = Inr p \<longrightarrow> map_of fs' p = map_of fs p)"
proof -
  have st: "has_object fs d = Inr True" using assms(1) by (cases rule: reach.cases) auto
  have main: "d \<notin> set (gc_deleted result) \<and>
         (\<forall>p. get_object_path d = Inr p \<longrightarrow> map_of fs' p = map_of fs p)"
  proof (cases "mark_reachable loads H fs roots")
    case (Inl e)
    with assms(2) show ?thesis by (auto simp: collect_def)
  next
    case (Inr res)
    have din: "d \<in> set res" using mark_reachable_complete[OF Inr assms(1)] .
    let ?un = "filter (\<lambda>h. h \<notin> set res) (remdups (list_all_objects fs))"
    show ?thesis
    proof (cases "?un \<noteq> []")
      case True
      obtain dl er fs1 where sw: "sweep res ?un [] [] fs = ((dl, er), fs1)"
        by (metis surj_pair)
      with True Inr assms(2) have "fs' = fs1" "gc_deleted result = dl"
        by (auto simp: collect_def Let_def)
      with sweep_keeps[OF sw din] show ?thesis by simp
    next
      case False
      with Inr assms(2) show ?thesis by (auto simp: collect_def Let_def)
    qed
  qed
  with st has_object_path[OF st] show ?thesis
    by (auto simp: has_object_def object_exists_def path_exists_def)
qed

lemma example_reach: "reach example_loads id example_fs [''s1''] ''b1''"
proof (rule reach_step)
  show "reach example_loads id example_fs [''s1''] ''s1''"
    by (rule reach_root)
      (simp_all add: has_object_def object_exists_def get_object_path_def get_hash_prefix_def
        path_exists_def example_fs_def)
  show "get_object example_loads id example_fs ''s1'' False = Inr example_snapshot"
    by (simp add: get_object_def get_object_path_def get_hash_prefix_def example_fs_def
        example_loads_def)
  show "extract_references example_snapshot = Inr [JStr ''b1'']"
    by (simp add: extract_references_def example_snapshot_def set_add_def scalar_eq_def)
  show "JStr ''b1'' \<in> set [JStr ''b1'']" by simp
  show "has_object example_fs ''b1'' = Inr True"
    by (simp add: has_object_def object_exists_def get_object_path_def get_hash_prefix_def
        path_exists_def example_fs_def)
qed

lemma example_collect: "collect example_loads id [''s1''] False example_fs =
  (\<lparr>gc_reachable = [''s1'', ''b1''], gc_unreachable = [''g1''], gc_deleted = [''g1''], gc_errors = []\<rparr>,
   [([''objects'', ''s1'', ''s1''], ''S''), ([''objects'', ''b1'', ''b1''], ''B''), ([''snapshots'', ''main''], ''s1'')])"
  by (simp add: collect_def mark_reachable_def ref_in_def ref_exists_def load_ref_def
      has_object_def object_exists_def get_object_path_def get_hash_prefix_def path_exists_def
      get_object_def extract_references_def set_add_def example_fs_def example_loads_def
      example_snapshot_def list_all_objects_def List.map_filter_def delete_object_def Let_def)

text \<open>
  Claim C1. The collector does delete an object that a root snapshot lists. In the store
  above the root \<open>r1\<close> loads and has the bundle \<open>b1\<close> in its list of bundles, and \<open>b1\<close> is
  stored. \<open>extract_references\<close> raises TypeError at the next item of that list, which is
  not hashable; the handler in the mark loop drops the exception together with the
  references read so far, so \<open>b1\<close> is never marked, and the sweep deletes it.
\<close>

theorem gc_deletes_listed_bundle:
  "get_object example_listing_loads H example_listing_fs ''r1'' False = Inr example_listing \<and>
   verify_object_structure example_listing = Inr () \<and>
   has_object example_listing_fs ''b1'' = Inr True \<and>
   extract_references example_listing = Inl TypeError \<and>
   collect example_listing_loads H [''r1''] False example_listing_fs =
     (\<lparr>gc_reachable = [''r1''], gc_unreachable = [''b1''], gc_deleted = [''b1''], gc_errors = []\<rparr>,
      [([''objects'', ''r1'', ''r1''], ''R'')])"
  by (simp add: collect_def mark_reachable_def ref_in_def ref_exists_def load_ref_def
      has_object_def object_exists_def get_object_path_def get_hash_prefix_def path_exists_def
      get_object_def extract_references_def set_add_def scalar_eq_def verify_object_structure_def
      valid_types_def example_listing_fs_def example_listing_loads_def example_listing_def
      list_all_objects_def List.map_filter_def delete_object_def Let_def)

section \<open>Putting a record: what a call changes\<close>

lemma path_exists_keys: "path_exists fs p \<longleftrightarrow> p \<in> fst ` set fs"
  by (simp add: path_exists_def map_of_eq_None_iff)

lemma temp_file_removed:
  assumes "\<not> path_exists fs tp"
  shows "AList.delete tp (AList.update tp x fs) = fs"
proof -
  have "tp \<notin> fst ` set fs" using assms by (simp add: path_exists_keys)
  then show ?thesis by (simp add: AList.delete_update_same)
qed

lemma write_object_atomic_cases:
  assumes "write_object_atomic tmp flt fs p data = (res, fs')"
  shows "(res = Inr () \<and> (\<forall>k. flt \<noteq> ShortWrite k) \<and> fs' = AList.update p data fs) \<or>
         (res = Inr () \<and> (\<exists>k. flt = ShortWrite k \<and> fs' = AList.update p (take k data) fs)) \<or>
         (res = Inl (StorageError ''write_file'') \<and> fs' = fs)"
proof (cases "flt = OpenFails \<or> path_exists fs (butlast p @ [tmp])")
  case True
  with assms show ?thesis by (auto simp: write_object_atomic_def Let_def)
next
  case False
  then have rm: "\<And>x. AList.delete (butlast p @ [tmp]) (AList.update (butlast p @ [tmp]) x fs) = fs"
    using temp_file_removed by blast
  from False assms show ?thesis
    by (cases flt) (auto simp: write_object_atomic_def Let_def rm)
qed

lemma compute_object_hash_bytes:
  "compute_object_hash H r = Inr h \<longleftrightarrow>
     canonical_json r = Inr (canonical_encoding r) \<and> h = H (canonical_encoding r)"
  by (auto simp: compute_object_hash_def canonical_json_def split: sum.splits)

lemma put_object_already_stored:
  assumes "already_stored loads H fs r" "verify_object_structure r = Inr ()"
    "compute_object_hash H r = Inr h"
  shows "put_object loads H tmp flt fs r = (Inr h, fs)"
  using assms
  by (auto simp: already_stored_def put_object_def verify_object_integrity_def Let_def)

text \<open>
  A call of \<open>put_object\<close> that returns a digest has found the record stored, or has
  written the canonical bytes of the record to the file of the digest, or the first
  bytes of them when the write was short.
\<close>

lemma put_object_success:
  assumes "put_object loads H tmp flt fs r = (Inr h, fs')"
  shows "verify_object_structure r = Inr () \<and> compute_object_hash H r = Inr h \<and>
         2 \<le> length h \<and>
         (already_stored loads H fs r \<and> fs' = fs \<or>
          (\<forall>k. flt \<noteq> ShortWrite k) \<and>
            fs' = AList.update [''objects'', take 2 h, h] (canonical_encoding r) fs \<or>
          (\<exists>k. flt = ShortWrite k \<and>
            fs' = AList.update [''objects'', take 2 h, h] (take k (canonical_encoding r)) fs))"
proof -
  have st: "verify_object_structure r = Inr ()"
    using assms by (cases "verify_object_structure r") (auto simp: put_object_def)
  obtain h0 where h0: "compute_object_hash H r = Inr h0"
    using assms st by (cases "compute_object_hash H r") (auto simp: put_object_def)
  have cj: "canonical_json r = Inr (canonical_encoding r)"
    using h0 by (simp add: compute_object_hash_bytes)
  obtain p where p: "get_object_path h0 = Inr p"
    using assms st h0 by (cases "get_object_path h0") (auto simp: put_object_def)
  then have len: "2 \<le> length h0" and pp: "p = [''objects'', take 2 h0, h0]"
    by (auto simp: get_object_path_def get_hash_prefix_def split: if_splits)
  obtain wr wfs where w: "write_object_atomic tmp flt fs p (canonical_encoding r) = (wr, wfs)"
    by (cases "write_object_atomic tmp flt fs p (canonical_encoding r)")
  note wc = write_object_atomic_cases[OF w]
  have shape: "h = h0 \<and> (already_stored loads H fs r \<and> fs' = fs \<or> wr = Inr () \<and> fs' = wfs)"
  proof (cases "map_of fs p")
    case None
    with assms st h0 p cj w show ?thesis
      by (cases wr) (auto simp: put_object_def Let_def)
  next
    case (Some existing_data)
    show ?thesis
    proof (cases "loads existing_data")
      case (Inl le)
      with assms st h0 p cj w Some show ?thesis
        by (cases le; cases wr) (auto simp: put_object_def Let_def)
    next
      case lo: (Inr existing_obj)
      show ?thesis
      proof (cases "verify_object_integrity H existing_obj h0")
        case (Inl e)
        with assms st h0 p cj w Some lo show ?thesis
          by (cases e; cases wr) (auto simp: put_object_def Let_def)
      next
        case (Inr u)
        then have "compute_object_hash H existing_obj = Inr h0"
          by (auto simp: verify_object_integrity_def split: sum.splits if_splits)
        with h0 p Some lo have "already_stored loads H fs r"
          unfolding already_stored_def by blast
        with assms st h0 p Some lo Inr show ?thesis
          by (auto simp: put_object_def Let_def)
      qed
    qed
  qed
  with st h0 len pp wc show ?thesis by auto
qed

lemma example_structure: "verify_object_structure example_snapshot = Inr ()"
  by (simp add: verify_object_structure_def valid_types_def example_snapshot_def)

lemma example_bytes:
  "canonical_encoding example_snapshot =
     ''{\"content\":{\"bundles\":[\"b1\"]},\"type\":\"snapshot\"}''"
  by (simp add: example_snapshot_def canonical_encoding_def utf8_encode_def utf8_char_def
      encode_basestring_def escape_char_def)

lemma example_canonical: "canonical_json example_snapshot = Inr (canonical_encoding example_snapshot)"
  by (simp add: canonical_json_def example_snapshot_def)

lemma example_digest: "compute_object_hash example_hash example_snapshot = Inr ''h1''"
  by (simp add: compute_object_hash_def example_canonical example_hash_def)

lemma example_put:
  "put_object example_parse example_hash ''t1'' NoFault example_fs example_snapshot =
     (Inr ''h1'', example_fs @ [([''objects'', ''h1'', ''h1''], canonical_encoding example_snapshot)])"
  by (simp add: put_object_def example_structure example_digest example_canonical
      get_object_path_def get_hash_prefix_def write_object_atomic_def path_exists_def Let_def
      example_fs_def)

text \<open>
  Without a short write, a second call finds the record stored and returns at once,
  given that the parser reads the canonical bytes of the record back to a record with
  the same canonical bytes, as \<^verbatim>\<open>json.loads\<close> does.
\<close>

lemma put_object_again:
  assumes first: "put_object loads H tmp flt fs r = (Inr h, fs1)"
    and complete: "\<forall>k. flt \<noteq> ShortWrite k"
    and parser: "\<exists>r'. loads (canonical_encoding r) = Inr r' \<and> canonical_json r' = canonical_json r"
  shows "put_object loads H tmp' flt' fs1 r = (Inr h, fs1) \<and>
         path_exists fs1 [''objects'', take 2 h, h]"
proof -
  note s = put_object_success[OF first]
  let ?p = "[''objects'', take 2 h, h]"
  have st: "verify_object_structure r = Inr ()" and h: "compute_object_hash H r = Inr h"
    and len: "2 \<le> length h"
    using s by blast+
  have gp: "get_object_path h = Inr ?p"
    using len by (simp add: get_object_path_def get_hash_prefix_def)
  consider (kept) "already_stored loads H fs r" "fs1 = fs"
    | (written) "fs1 = AList.update ?p (canonical_encoding r) fs"
    using s complete by blast
  then have stored: "already_stored loads H fs1 r"
  proof cases
    case kept
    then show ?thesis by simp
  next
    case written
    have ex: "map_of fs1 ?p = Some (canonical_encoding r)"
      using written by (simp add: AList.update_conv')
    from parser obtain r' where r': "loads (canonical_encoding r) = Inr r'"
      "canonical_json r' = canonical_json r" by blast
    have "compute_object_hash H r' = Inr h"
      using h r'(2) by (simp add: compute_object_hash_def)
    with h gp ex r'(1) show ?thesis unfolding already_stored_def by blast
  qed
  have "path_exists fs1 ?p"
    using stored h gp by (auto simp: already_stored_def path_exists_def)
  with put_object_already_stored[OF stored st h, of tmp' flt'] show ?thesis by simp
qed

text \<open>
  Claim C2. Two calls of \<open>put_object\<close> on one record, where the second is not a no-op.
  \<^verbatim>\<open>_write_object_atomic\<close> does not look at the count that \<^verbatim>\<open>os.write\<close> returns. When
  the write of the first call is short, here after five bytes, the first call renames the
  five bytes into place and returns the digest. The second call finds a file that does
  not parse and writes the record again, so the store it leaves is not the store the
  first call left.
\<close>

theorem put_object_short_write_rewritten:
  "put_object example_parse example_hash ''t1'' (ShortWrite 5) example_fs example_snapshot =
     (Inr ''h1'', example_fs @ [([''objects'', ''h1'', ''h1''], ''{\"con'')]) \<and>
   put_object example_parse example_hash ''t2'' NoFault
     (example_fs @ [([''objects'', ''h1'', ''h1''], ''{\"con'')]) example_snapshot =
     (Inr ''h1'', example_fs @ [([''objects'', ''h1'', ''h1''],
        ''{\"content\":{\"bundles\":[\"b1\"]},\"type\":\"snapshot\"}'')])"
proof -
  have parse: "example_parse ''{\"con'' = Inl NotJSON"
    by (simp add: example_parse_def example_bytes)
  have first: "put_object example_parse example_hash ''t1'' (ShortWrite 5) example_fs example_snapshot =
     (Inr ''h1'', example_fs @ [([''objects'', ''h1'', ''h1''], ''{\"con'')])"
    by (simp add: put_object_def example_structure example_digest example_canonical
        get_object_path_def get_hash_prefix_def write_object_atomic_def path_exists_def Let_def
        example_fs_def example_bytes)
  have second: "put_object example_parse example_hash ''t2'' NoFault
     (example_fs @ [([''objects'', ''h1'', ''h1''], ''{\"con'')]) example_snapshot =
     (Inr ''h1'', example_fs @ [([''objects'', ''h1'', ''h1''],
        ''{\"content\":{\"bundles\":[\"b1\"]},\"type\":\"snapshot\"}'')])"
    by (simp add: put_object_def example_structure example_digest example_canonical parse
        get_object_path_def get_hash_prefix_def write_object_atomic_def path_exists_def Let_def
        example_fs_def example_bytes)
  from first second show ?thesis by (rule conjI)
qed

text \<open>
  Claim C10. A successful \<open>put_object r\<close> returns the digest \<open>h\<close> of \<open>r\<close> and changes no path
  other than the object file of \<open>h\<close>: the file of every other digest and every named
  snapshot reference hold what they held before.
\<close>

theorem put_object_frame:
  assumes "put_object loads H tmp flt fs r = (Inr h, fs')"
  shows "compute_object_hash H r = Inr h \<and>
         (\<forall>p. p \<noteq> [''objects'', take 2 h, h] \<longrightarrow> map_of fs' p = map_of fs p) \<and>
         (\<forall>d p. d \<noteq> h \<longrightarrow> get_object_path d = Inr p \<longrightarrow> map_of fs' p = map_of fs p) \<and>
         (\<forall>name p. get_snapshot_ref_path name = Inr p \<longrightarrow> map_of fs' p = map_of fs p)"
proof -
  note s = put_object_success[OF assms]
  have other: "map_of fs' p = map_of fs p" if "p \<noteq> [''objects'', take 2 h, h]" for p
    using s that by (auto simp: AList.update_conv')
  have dig: "map_of fs' p = map_of fs p" if "d \<noteq> h" "get_object_path d = Inr p" for d p
  proof -
    have "p \<noteq> [''objects'', take 2 h, h]"
      using that by (auto simp: get_object_path_def get_hash_prefix_def split: if_splits)
    then show ?thesis by (rule other)
  qed
  have ref: "map_of fs' p = map_of fs p" if "get_snapshot_ref_path name = Inr p" for name p
  proof -
    have "p \<noteq> [''objects'', take 2 h, h]"
      using that by (auto simp: get_snapshot_ref_path_def split: sum.splits)
    then show ?thesis by (rule other)
  qed
  from s other dig ref show ?thesis by blast
qed

theorem put_object_frame_witness:
  "put_object example_parse example_hash ''t1'' NoFault example_fs example_snapshot =
     (Inr ''h1'', example_fs @ [([''objects'', ''h1'', ''h1''], canonical_encoding example_snapshot)]) \<and>
   map_of (example_fs @ [([''objects'', ''h1'', ''h1''], canonical_encoding example_snapshot)])
     [''objects'', ''b1'', ''b1''] = map_of example_fs [''objects'', ''b1'', ''b1''] \<and>
   map_of (example_fs @ [([''objects'', ''h1'', ''h1''], canonical_encoding example_snapshot)])
     [''snapshots'', ''main''] = map_of example_fs [''snapshots'', ''main'']"
proof -
  have a: "get_object_path ''b1'' = Inr [''objects'', ''b1'', ''b1'']"
    by (simp add: get_object_path_def get_hash_prefix_def)
  have b: "get_snapshot_ref_path ''main'' = Inr [''snapshots'', ''main'']"
    by (simp add: get_snapshot_ref_path_def sanitize_name_def)
  have c: "''b1'' \<noteq> ''h1''" by simp
  note frame = put_object_frame[OF example_put]
  note objs = frame[THEN conjunct2, THEN conjunct2, THEN conjunct1, rule_format, OF c a]
  note refs = frame[THEN conjunct2, THEN conjunct2, THEN conjunct2, rule_format, OF b]
  from example_put objs refs show ?thesis by (intro conjI)
qed

section \<open>Reading an object: which error is raised when\<close>

lemma get_object_path_cases:
  "get_object_path d = (if length d < 2 then Inl ValueError else Inr [''objects'', take 2 d, d])"
  by (simp add: get_object_path_def get_hash_prefix_def)

lemma get_object_file:
  assumes "2 \<le> length d" "map_of fs [''objects'', take 2 d, d] = Some data"
  shows "get_object loads H fs d verify =
     (case loads data of
        Inl NotJSON \<Rightarrow> Inl (StorageError ''read_object'')
      | Inl le \<Rightarrow> Inl (load_exception le)
      | Inr obj_data \<Rightarrow>
          if verify then
            (case verify_object_structure obj_data of
               Inl e \<Rightarrow> Inl e
             | Inr _ \<Rightarrow>
                 (case verify_object_integrity H obj_data d of
                    Inl e \<Rightarrow> Inl e
                  | Inr _ \<Rightarrow> Inr obj_data))
          else Inr obj_data)"
  using assms by (simp add: get_object_def get_object_path_cases)

lemma verify_object_structure_error:
  "verify_object_structure obj = Inl e \<Longrightarrow> e = InvalidObjectError \<or> e = TypeError"
  by (auto simp: verify_object_structure_def split: json.splits option.splits if_splits)

lemma compute_object_hash_error:
  "compute_object_hash H obj = Inl e \<Longrightarrow> e = ValueError"
  by (auto simp: compute_object_hash_def canonical_json_def split: if_splits)

text \<open>
  In the example store the file of \<open>b1\<close> exists and its bytes do not parse. Reading it
  with verification raises \<^verbatim>\<open>StorageError("read_object", ...)\<close>, the error that the handler of
  \<^verbatim>\<open>json.JSONDecodeError\<close> in \<^verbatim>\<open>get_object\<close> constructs, and not ObjectCorruptedError.
\<close>

theorem get_object_parse_error_is_storage_error:
  "map_of example_fs [''objects'', ''b1'', ''b1''] = Some ''B'' \<and>
   example_loads ''B'' = Inl NotJSON \<and>
   get_object example_loads id example_fs ''b1'' True = Inl (StorageError ''read_object'')"
  by (simp add: get_object_def get_object_path_def get_hash_prefix_def example_fs_def
      example_loads_def)

text \<open>
  Claim C4. \<open>get_object d\<close> with verification, for a digest \<open>d\<close> that is a file name. A
  digest shorter than the two characters of the directory prefix raises ValueError. For
  any other digest, ObjectNotFoundError is raised exactly when the object file is
  absent. When the file is there: bytes that are not JSON raise
  \<^verbatim>\<open>StorageError("read_object", ...)\<close>, and any other exception of the parser is raised as
  it is; a record that parses and is not structurally valid raises the error of the
  structure check, before its digest is looked at; a structurally valid record that
  cannot be encoded raises the ValueError of the encoder; a structurally valid record
  whose recomputed digest differs from \<open>d\<close> raises ObjectCorruptedError with the
  expected and the actual digest; and a structurally valid record with digest \<open>d\<close> is
  returned.
\<close>

theorem get_object_outcomes:
  assumes "plain_name d"
  shows
  "(length d < 2 \<longrightarrow> get_object loads H fs d True = Inl ValueError) \<and>
   (2 \<le> length d \<longrightarrow>
      (get_object loads H fs d True = Inl (ObjectNotFoundError d)
         \<longleftrightarrow> map_of fs [''objects'', take 2 d, d] = None)) \<and>
   (\<forall>data. 2 \<le> length d \<longrightarrow> map_of fs [''objects'', take 2 d, d] = Some data \<longrightarrow>
      loads data = Inl NotJSON \<longrightarrow>
      get_object loads H fs d True = Inl (StorageError ''read_object'')) \<and>
   (\<forall>data le. 2 \<le> length d \<longrightarrow> map_of fs [''objects'', take 2 d, d] = Some data \<longrightarrow>
      loads data = Inl le \<longrightarrow> le \<noteq> NotJSON \<longrightarrow>
      get_object loads H fs d True = Inl (load_exception le)) \<and>
   (\<forall>data obj e. 2 \<le> length d \<longrightarrow> map_of fs [''objects'', take 2 d, d] = Some data \<longrightarrow>
      loads data = Inr obj \<longrightarrow> verify_object_structure obj = Inl e \<longrightarrow>
      get_object loads H fs d True = Inl e) \<and>
   (\<forall>data obj e. 2 \<le> length d \<longrightarrow> map_of fs [''objects'', take 2 d, d] = Some data \<longrightarrow>
      loads data = Inr obj \<longrightarrow> verify_object_structure obj = Inr () \<longrightarrow>
      compute_object_hash H obj = Inl e \<longrightarrow>
      get_object loads H fs d True = Inl ValueError) \<and>
   (\<forall>data obj a. 2 \<le> length d \<longrightarrow> map_of fs [''objects'', take 2 d, d] = Some data \<longrightarrow>
      loads data = Inr obj \<longrightarrow> verify_object_structure obj = Inr () \<longrightarrow>
      compute_object_hash H obj = Inr a \<longrightarrow> a \<noteq> d \<longrightarrow>
      get_object loads H fs d True = Inl (ObjectCorruptedError d d a)) \<and>
   (\<forall>data obj. 2 \<le> length d \<longrightarrow> map_of fs [''objects'', take 2 d, d] = Some data \<longrightarrow>
      loads data = Inr obj \<longrightarrow> verify_object_structure obj = Inr () \<longrightarrow>
      compute_object_hash H obj = Inr d \<longrightarrow>
      get_object loads H fs d True = Inr obj)"
proof (intro conjI allI impI)
  assume "length d < 2"
  then show "get_object loads H fs d True = Inl ValueError"
    by (simp add: get_object_def get_object_path_cases)
next
  assume len: "2 \<le> length d"
  show "get_object loads H fs d True = Inl (ObjectNotFoundError d)
      \<longleftrightarrow> map_of fs [''objects'', take 2 d, d] = None"
  proof (cases "map_of fs [''objects'', take 2 d, d]")
    case None
    with len show ?thesis by (simp add: get_object_def get_object_path_cases)
  next
    case (Some data)
    have "get_object loads H fs d True \<noteq> Inl (ObjectNotFoundError d)"
    proof (cases "loads data")
      case (Inl le)
      then show ?thesis
        unfolding get_object_file[OF len Some] by (cases le) simp_all
    next
      case (Inr obj)
      show ?thesis
      proof (cases "verify_object_structure obj")
        case (Inl e)
        with verify_object_structure_error[OF Inl] Inr show ?thesis
          unfolding get_object_file[OF len Some] by auto
      next
        case st: (Inr u)
        show ?thesis
        proof (cases "compute_object_hash H obj")
          case (Inl e)
          with compute_object_hash_error[OF Inl] Inr st show ?thesis
            unfolding get_object_file[OF len Some]
            by (simp add: verify_object_integrity_def)
        next
          case (Inr a)
          with \<open>loads data = Inr obj\<close> st show ?thesis
            unfolding get_object_file[OF len Some]
            by (simp add: verify_object_integrity_def)
        qed
      qed
    qed
    with Some show ?thesis by simp
  qed
next
  fix data
  assume "2 \<le> length d" "map_of fs [''objects'', take 2 d, d] = Some data" "loads data = Inl NotJSON"
  then show "get_object loads H fs d True = Inl (StorageError ''read_object'')"
    by (simp add: get_object_file)
next
  fix data le
  assume "2 \<le> length d" "map_of fs [''objects'', take 2 d, d] = Some data" "loads data = Inl le"
    "le \<noteq> NotJSON"
  then show "get_object loads H fs d True = Inl (load_exception le)"
    by (cases le) (simp_all add: get_object_file)
next
  fix data obj e
  assume "2 \<le> length d" "map_of fs [''objects'', take 2 d, d] = Some data" "loads data = Inr obj"
    "verify_object_structure obj = Inl e"
  then show "get_object loads H fs d True = Inl e"
    by (simp add: get_object_file)
next
  fix data obj e
  assume "2 \<le> length d" "map_of fs [''objects'', take 2 d, d] = Some data" "loads data = Inr obj"
    "verify_object_structure obj = Inr ()" "compute_object_hash H obj = Inl e"
  then show "get_object loads H fs d True = Inl ValueError"
    using compute_object_hash_error[of H obj e]
    by (simp add: get_object_file verify_object_integrity_def)
next
  fix data obj a
  assume "2 \<le> length d" "map_of fs [''objects'', take 2 d, d] = Some data" "loads data = Inr obj"
    "verify_object_structure obj = Inr ()" "compute_object_hash H obj = Inr a" "a \<noteq> d"
  then show "get_object loads H fs d True = Inl (ObjectCorruptedError d d a)"
    by (simp add: get_object_file verify_object_integrity_def)
next
  fix data obj
  assume "2 \<le> length d" "map_of fs [''objects'', take 2 d, d] = Some data" "loads data = Inr obj"
    "verify_object_structure obj = Inr ()" "compute_object_hash H obj = Inr d"
  then show "get_object loads H fs d True = Inr obj"
    by (simp add: get_object_file verify_object_integrity_def)
qed

theorem get_object_outcomes_witness:
  "get_object example_loads (\<lambda>b. ''zz'') example_fs ''a'' True = Inl ValueError \<and>
   get_object example_loads (\<lambda>b. ''zz'') example_fs ''zz'' True = Inl (ObjectNotFoundError ''zz'') \<and>
   get_object example_loads (\<lambda>b. ''zz'') example_fs ''b1'' True = Inl (StorageError ''read_object'') \<and>
   get_object (\<lambda>b. Inl NotUTF8) (\<lambda>b. ''zz'') example_fs ''b1'' True = Inl UnicodeDecodeError \<and>
   get_object (\<lambda>b. Inr (JList [])) (\<lambda>b. ''zz'') example_fs ''b1'' True = Inl InvalidObjectError \<and>
   get_object (\<lambda>b. Inr (JDict [(''type'', JStr ''blob''), (''content'', JFloat PyNaN)]))
     (\<lambda>b. ''zz'') example_fs ''b1'' True = Inl ValueError \<and>
   get_object example_loads (\<lambda>b. ''zz'') example_fs ''s1'' True =
     Inl (ObjectCorruptedError ''s1'' ''s1'' ''zz'') \<and>
   get_object example_loads (\<lambda>b. ''s1'') example_fs ''s1'' True = Inr example_snapshot"
proof -
  have plain: "plain_name ''a''" "plain_name ''zz''" "plain_name ''b1''" "plain_name ''s1''"
    by (simp_all add: plain_name_def)
  have short: "length ''a'' < 2" and long: "2 \<le> length ''zz''" "2 \<le> length ''b1''" "2 \<le> length ''s1''"
    by simp_all
  have absent: "map_of example_fs [''objects'', take 2 ''zz'', ''zz''] = None"
    by (simp add: example_fs_def)
  have b1: "map_of example_fs [''objects'', take 2 ''b1'', ''b1''] = Some ''B''"
    and s1: "map_of example_fs [''objects'', take 2 ''s1'', ''s1''] = Some ''S''"
    by (simp_all add: example_fs_def)
  have pb: "example_loads ''B'' = Inl NotJSON" and ps: "example_loads ''S'' = Inr example_snapshot"
    by (simp_all add: example_loads_def)
  have st: "verify_object_structure example_snapshot = Inr ()"
    by (simp add: verify_object_structure_def valid_types_def example_snapshot_def)
  have bad: "verify_object_structure (JList []) = Inl InvalidObjectError"
    by (simp add: verify_object_structure_def)
  have nan_st: "verify_object_structure (JDict [(''type'', JStr ''blob''), (''content'', JFloat PyNaN)]) = Inr ()"
    by (simp add: verify_object_structure_def valid_types_def)
  have nan_hash: "compute_object_hash (\<lambda>b. ''zz'')
      (JDict [(''type'', JStr ''blob''), (''content'', JFloat PyNaN)]) = Inl ValueError"
    by (simp add: compute_object_hash_def canonical_json_def)
  have hz: "compute_object_hash (\<lambda>b. ''zz'') example_snapshot = Inr ''zz''"
    and hs: "compute_object_hash (\<lambda>b. ''s1'') example_snapshot = Inr ''s1''"
    by (simp_all add: compute_object_hash_def canonical_json_def example_snapshot_def)
  have ne: "''zz'' \<noteq> ''s1''" and nj: "NotUTF8 \<noteq> NotJSON" by simp_all
  note t1 = get_object_outcomes[OF plain(1), of example_loads "\<lambda>b. ''zz''" example_fs,
      THEN conjunct1, THEN mp, OF short]
  note t2 = get_object_outcomes[OF plain(2), of example_loads "\<lambda>b. ''zz''" example_fs,
      THEN conjunct2, THEN conjunct1, THEN mp, OF long(1), THEN iffD2, OF absent]
  note t3 = get_object_outcomes[OF plain(3), of example_loads "\<lambda>b. ''zz''" example_fs,
      THEN conjunct2, THEN conjunct2, THEN conjunct1, rule_format, OF long(2) b1 pb]
  note t4 = get_object_outcomes[OF plain(3), of "\<lambda>b. Inl NotUTF8" "\<lambda>b. ''zz''" example_fs,
      THEN conjunct2, THEN conjunct2, THEN conjunct2, THEN conjunct1, rule_format,
      OF long(2) b1 refl nj]
  note t5 = get_object_outcomes[OF plain(3), of "\<lambda>b. Inr (JList [])" "\<lambda>b. ''zz''" example_fs,
      THEN conjunct2, THEN conjunct2, THEN conjunct2, THEN conjunct2, THEN conjunct1,
      rule_format, OF long(2) b1 refl bad]
  note t6 = get_object_outcomes[OF plain(3),
      of "\<lambda>b. Inr (JDict [(''type'', JStr ''blob''), (''content'', JFloat PyNaN)])"
        "\<lambda>b. ''zz''" example_fs,
      THEN conjunct2, THEN conjunct2, THEN conjunct2, THEN conjunct2, THEN conjunct2,
      THEN conjunct1, rule_format, OF long(2) b1 refl nan_st nan_hash]
  note t7 = get_object_outcomes[OF plain(4), of example_loads "\<lambda>b. ''zz''" example_fs,
      THEN conjunct2, THEN conjunct2, THEN conjunct2, THEN conjunct2, THEN conjunct2,
      THEN conjunct2, THEN conjunct1, rule_format, OF long(3) s1 ps st hz ne]
  note t8 = get_object_outcomes[OF plain(4), of example_loads "\<lambda>b. ''s1''" example_fs,
      THEN conjunct2, THEN conjunct2, THEN conjunct2, THEN conjunct2, THEN conjunct2,
      THEN conjunct2, THEN conjunct2, rule_format, OF long(3) s1 ps st hs]
  from t1 t2 t3 t4[simplified] t5 t6 t7 t8 show ?thesis by (intro conjI)
qed

section \<open>Named references: what is required and how the file is written\<close>






section \<open>Creating a snapshot from bundles: what must exist\<close>

lemma bundles_exist_ok:
  "bundles_exist fs hs = Inr () \<longleftrightarrow> (\<forall>h \<in> set hs. has_object fs h = Inr True)"
  by (induction hs) (auto split: sum.splits bool.splits)

lemma bundles_exist_missing:
  assumes "h \<in> set hs" "has_object fs h \<noteq> Inr True"
  shows "\<exists>e. bundles_exist fs hs = Inl e"
  using assms bundles_exist_ok[of fs hs] by (cases "bundles_exist fs hs") auto

lemma bundles_exist_error:
  assumes "\<forall>h \<in> set hs. 2 \<le> length h" "bundles_exist fs hs = Inl e"
  shows "e = InvalidObjectError"
  using assms
  by (induction hs)
    (auto simp: has_object_def object_exists_def get_object_path_def get_hash_prefix_def
      split: sum.splits bool.splits if_splits)

lemma example_has_object:
  "has_object example_fs ''b1'' = Inr True" "has_object example_fs ''zz'' = Inr False"
  by (simp_all add: has_object_def object_exists_def get_object_path_def get_hash_prefix_def
      path_exists_def example_fs_def)

lemma example_child_dict:
  "Snapshot_to_dict (Snapshot_init [JStr ''b1''] (JStr ''zz'') JNull) =
     JDict [(''type'', JStr ''snapshot''),
            (''content'', JDict [(''bundles'', JList [JStr ''b1'']), (''parent'', JStr ''zz'')])]"
  by (simp add: Snapshot_to_dict_def Snapshot_init_def py_or_def)

lemma example_child_put:
  "put_object example_loads (\<lambda>b. ''n1'') ''t1'' NoFault example_fs
     (JDict [(''type'', JStr ''snapshot''),
            (''content'', JDict [(''bundles'', JList [JStr ''b1'']), (''parent'', JStr ''zz'')])]) =
   (Inr ''n1'', example_fs @ [([''objects'', ''n1'', ''n1''],
      canonical_encoding (JDict [(''type'', JStr ''snapshot''),
            (''content'', JDict [(''bundles'', JList [JStr ''b1'']), (''parent'', JStr ''zz'')])]))])"
  by (simp add: put_object_def verify_object_structure_def valid_types_def compute_object_hash_def
      canonical_json_def get_object_path_def get_hash_prefix_def write_object_atomic_def path_exists_def Let_def
      example_fs_def)

text \<open>
  In the example store the bundle \<open>b1\<close> exists and no object \<open>zz\<close> does. Creating a
  snapshot of \<open>b1\<close> with parent \<open>zz\<close> succeeds and stores the snapshot: only the loop
  under \<^verbatim>\<open># Verify all bundles exist\<close> looks into the store.
\<close>

theorem create_snapshot_absent_parent:
  "has_object example_fs ''b1'' = Inr True \<and>
   has_object example_fs ''zz'' = Inr False \<and>
   create_snapshot_from_bundles example_loads (\<lambda>b. ''n1'') ''t1'' NoFault example_fs
     [''b1''] (JStr ''zz'') JNull =
   (Inr ''n1'', example_fs @ [([''objects'', ''n1'', ''n1''],
      canonical_encoding (JDict [(''type'', JStr ''snapshot''),
            (''content'', JDict [(''bundles'', JList [JStr ''b1'']), (''parent'', JStr ''zz'')])]))])"
  using example_has_object example_child_put
  by (simp add: create_snapshot_from_bundles_def example_child_dict)

text \<open>
  Claim C6. \<open>create_snapshot_from_bundles\<close> requires every bundle digest to exist: when one
  of them is not in the store the call fails and the store is unchanged, with
  InvalidObjectError when every digest has the two characters of a directory prefix. When
  all bundles exist the call is \<open>put_object\<close> of the snapshot record, whether or not the
  parent is in the store.
\<close>

theorem create_snapshot_checks_bundles_only:
  "(\<forall>h. h \<in> set bundle_hashes \<longrightarrow> has_object fs h \<noteq> Inr True \<longrightarrow>
      (\<exists>e. create_snapshot_from_bundles loads H tmp flt fs bundle_hashes parent metadata = (Inl e, fs))) \<and>
   (\<forall>h. h \<in> set bundle_hashes \<longrightarrow> has_object fs h = Inr False \<longrightarrow>
      (\<forall>h' \<in> set bundle_hashes. 2 \<le> length h') \<longrightarrow>
      create_snapshot_from_bundles loads H tmp flt fs bundle_hashes parent metadata =
        (Inl InvalidObjectError, fs)) \<and>
   ((\<forall>h \<in> set bundle_hashes. has_object fs h = Inr True) \<longrightarrow>
      create_snapshot_from_bundles loads H tmp flt fs bundle_hashes parent metadata =
        put_object loads H tmp flt fs
          (Snapshot_to_dict (Snapshot_init (map JStr bundle_hashes) parent metadata)))"
proof (intro conjI allI impI)
  fix h assume "h \<in> set bundle_hashes" "has_object fs h \<noteq> Inr True"
  from bundles_exist_missing[OF this]
  show "\<exists>e. create_snapshot_from_bundles loads H tmp flt fs bundle_hashes parent metadata = (Inl e, fs)"
    by (auto simp: create_snapshot_from_bundles_def)
next
  fix h assume h: "h \<in> set bundle_hashes" "has_object fs h = Inr False"
    and len: "\<forall>h' \<in> set bundle_hashes. 2 \<le> length h'"
  from h have "has_object fs h \<noteq> Inr True" by simp
  from bundles_exist_missing[OF h(1) this] obtain e where e: "bundles_exist fs bundle_hashes = Inl e"
    by blast
  from bundles_exist_error[OF len e] e
  show "create_snapshot_from_bundles loads H tmp flt fs bundle_hashes parent metadata =
        (Inl InvalidObjectError, fs)"
    by (simp add: create_snapshot_from_bundles_def)
next
  assume "\<forall>h \<in> set bundle_hashes. has_object fs h = Inr True"
  then have "bundles_exist fs bundle_hashes = Inr ()" by (simp add: bundles_exist_ok)
  then show "create_snapshot_from_bundles loads H tmp flt fs bundle_hashes parent metadata =
        put_object loads H tmp flt fs
          (Snapshot_to_dict (Snapshot_init (map JStr bundle_hashes) parent metadata))"
    by (simp add: create_snapshot_from_bundles_def)
qed

theorem create_snapshot_checks_bundles_only_witness:
  "create_snapshot_from_bundles example_loads (\<lambda>b. ''n1'') ''t1'' NoFault example_fs
     [''b1'', ''zz''] JNull JNull = (Inl InvalidObjectError, example_fs) \<and>
   (\<exists>e. create_snapshot_from_bundles example_loads (\<lambda>b. ''n1'') ''t1'' NoFault example_fs
     [''b1'', ''z''] JNull JNull = (Inl e, example_fs)) \<and>
   create_snapshot_from_bundles example_loads (\<lambda>b. ''n1'') ''t1'' NoFault example_fs
     [''b1''] (JStr ''zz'') JNull =
   (Inr ''n1'', example_fs @ [([''objects'', ''n1'', ''n1''],
      canonical_encoding (JDict [(''type'', JStr ''snapshot''),
            (''content'', JDict [(''bundles'', JList [JStr ''b1'']), (''parent'', JStr ''zz'')])]))])"
proof -
  have mem: "''zz'' \<in> set [''b1'', ''zz'']" and mem': "''z'' \<in> set [''b1'', ''z'']" by simp_all
  have len: "\<forall>h' \<in> set [''b1'', ''zz'']. 2 \<le> length h'" by simp
  have short: "has_object example_fs ''z'' \<noteq> Inr True"
    by (simp add: has_object_def object_exists_def get_object_path_def get_hash_prefix_def)
  have all: "\<forall>h \<in> set [''b1'']. has_object example_fs h = Inr True"
    using example_has_object by simp
  note t2 = create_snapshot_checks_bundles_only[of "[''b1'', ''zz'']" example_fs example_loads
      "\<lambda>b. ''n1''" "''t1''" NoFault JNull JNull,
      THEN conjunct2, THEN conjunct1, rule_format, OF mem example_has_object(2) len[rule_format]]
  note t1 = create_snapshot_checks_bundles_only[of "[''b1'', ''z'']" example_fs example_loads
      "\<lambda>b. ''n1''" "''t1''" NoFault JNull JNull,
      THEN conjunct1, rule_format, OF mem' short]
  note t3 = create_snapshot_checks_bundles_only[of "[''b1'']" example_fs example_loads
      "\<lambda>b. ''n1''" "''t1''" NoFault "JStr ''zz''" JNull,
      THEN conjunct2, THEN conjunct2, THEN mp, OF all]
  have t3': "create_snapshot_from_bundles example_loads (\<lambda>b. ''n1'') ''t1'' NoFault example_fs
     [''b1''] (JStr ''zz'') JNull =
   (Inr ''n1'', example_fs @ [([''objects'', ''n1'', ''n1''],
      canonical_encoding (JDict [(''type'', JStr ''snapshot''),
            (''content'', JDict [(''bundles'', JList [JStr ''b1'']), (''parent'', JStr ''zz'')])]))])"
    using t3 example_child_dict example_child_put by simp
  from t2 t1 t3' show ?thesis by (intro conjI)
qed


section \<open>The chain of a snapshot\<close>

lemma parent_of_length:
  assumes "parent_of loads H fs h = Some p"
  shows "2 \<le> length h"
  using assms
  by (auto simp: parent_of_def get_object_def get_object_path_def get_hash_prefix_def
      split: sum.splits if_splits)

lemma chain_loop_step:
  assumes "parent_of loads H fs h = Some p" "h \<notin> set visited"
  shows "chain_loop loads H fs (JStr h) visited chain =
         chain_loop loads H fs p (visited @ [h]) (chain @ [h])"
proof -
  from parent_of_length[OF assms(1)] have "h \<noteq> []" by auto
  with assms show ?thesis
    by (subst chain_loop.simps) (auto simp: parent_of_def split: sum.splits)
qed

lemma chain_loop_walk:
  assumes "parent_links loads H fs (h # hs)" "distinct (h # hs)" "set (h # hs) \<inter> set visited = {}"
    "parent_of loads H fs (last (h # hs)) = Some p"
  shows "chain_loop loads H fs (JStr h) visited chain =
         chain_loop loads H fs p (visited @ h # hs) (chain @ h # hs)"
  using assms
proof (induction hs arbitrary: h visited chain)
  case Nil
  then show ?case using chain_loop_step[of loads H fs h p visited chain] by simp
next
  case (Cons h' hs')
  from Cons.prems(1) have link: "parent_of loads H fs h = Some (JStr h')"
    and rest: "parent_links loads H fs (h' # hs')" by simp_all
  from Cons.prems(3) have "h \<notin> set visited" by auto
  from chain_loop_step[OF link this]
  have "chain_loop loads H fs (JStr h) visited chain =
        chain_loop loads H fs (JStr h') (visited @ [h]) (chain @ [h])" .
  also have "\<dots> = chain_loop loads H fs p ((visited @ [h]) @ h' # hs') ((chain @ [h]) @ h' # hs')"
  proof (rule Cons.IH[OF rest])
    show "distinct (h' # hs')" using Cons.prems(2) by simp
    show "set (h' # hs') \<inter> set (visited @ [h]) = {}" using Cons.prems(2,3) by auto
    show "parent_of loads H fs (last (h' # hs')) = Some p" using Cons.prems(4) by simp
  qed
  finally show ?case by simp
qed

lemma parent_links_defined:
  assumes "parent_links loads H fs (h # hs)" "parent_of loads H fs (last (h # hs)) = Some p"
    "x \<in> set (h # hs)"
  shows "parent_of loads H fs x \<noteq> None"
  using assms by (induction hs arbitrary: h) auto

lemma get_object_not_invalid_reference:
  "get_object loads H fs h v \<noteq> Inl InvalidReferenceError"
  by (auto simp: get_object_def get_object_path_def get_hash_prefix_def verify_object_integrity_def
      split: sum.splits option.splits load_error.splits if_splits
      dest: verify_object_structure_error compute_object_hash_error)

lemma Snapshot_from_dict_not_invalid_reference:
  "Snapshot_from_dict data \<noteq> Inl InvalidReferenceError"
proof -
  have c: "py_contains k v \<noteq> Inl InvalidReferenceError" for k v
    by (cases v) simp_all
  show ?thesis
    using c[of "''bundles''"]
    by (auto simp: Snapshot_from_dict_def split: json.splits option.splits sum.splits bool.splits)
qed

lemma chain_loop_not_invalid_reference:
  "chain_loop loads H fs current visited chain \<noteq> Inl InvalidReferenceError"
proof (induction loads H fs current visited chain rule: chain_loop.induct)
  case (1 loads H fs current visited chain)
  show ?case
  proof (cases "py_truthy current")
    case False
    then show ?thesis by (subst chain_loop.simps) simp
  next
    case t: True
    show ?thesis
    proof (cases current)
      case (JStr h)
      show ?thesis
      proof (cases "h \<in> set visited")
        case True
        with t JStr show ?thesis by (subst chain_loop.simps) simp
      next
        case nv: False
        show ?thesis
        proof (cases "get_object loads H fs h True")
          case (Inl e)
          with get_object_not_invalid_reference[of loads H fs h True] t JStr nv
          show ?thesis by (subst chain_loop.simps) simp
        next
          case go: (Inr obj_data)
          show ?thesis
          proof (cases "Snapshot_from_dict obj_data")
            case (Inl e)
            with Snapshot_from_dict_not_invalid_reference[of obj_data] t JStr nv go
            show ?thesis by (subst chain_loop.simps) simp
          next
            case (Inr s)
            from "1.IH"[OF _ JStr nv go Inr] t
            have "chain_loop loads H fs (snapshot_parent s) (visited @ [h]) (chain @ [h])
                    \<noteq> Inl InvalidReferenceError" by simp
            with t JStr nv go Inr show ?thesis by (subst chain_loop.simps) simp
          qed
        qed
      qed
    qed (use t in \<open>subst chain_loop.simps, simp\<close>)+
  qed
qed

lemma verifies_parent:
  assumes "verifies loads H fs x"
  shows "parent_of loads H fs x = stored_parent loads H fs x"
proof -
  from assms obtain obj where v: "get_object loads H fs x True = Inr obj"
    by (cases "get_object loads H fs x True") (auto simp: verifies_def)
  then have "get_object loads H fs x False = Inr obj"
    by (auto simp: get_object_def split: sum.splits option.splits load_error.splits if_splits)
  with v show ?thesis by (simp add: parent_of_def stored_parent_def)
qed

lemma stored_parent_length:
  assumes "stored_parent loads H fs h = Some p"
  shows "2 \<le> length h"
  using assms
  by (auto simp: stored_parent_def get_object_def get_object_path_def get_hash_prefix_def
      split: sum.splits if_splits)

lemma stored_links_verified:
  assumes "stored_links loads H fs hs" "\<forall>x \<in> set hs. verifies loads H fs x"
  shows "parent_links loads H fs hs"
  using assms
proof (induction loads H fs hs rule: stored_links.induct)
  case (1 loads H fs h h' hs)
  then show ?case by (simp add: verifies_parent)
qed simp_all

lemma stored_links_append:
  assumes "stored_links loads H fs (pre @ x # post)"
  shows "stored_links loads H fs pre \<and>
         (pre \<noteq> [] \<longrightarrow> stored_parent loads H fs (last pre) = Some (JStr x))"
  using assms
proof (induction pre)
  case Nil
  then show ?case by simp
next
  case (Cons a pre)
  show ?case
  proof (cases pre)
    case Nil
    with Cons.prems show ?thesis by simp
  next
    case (Cons b pre')
    with Cons.prems Cons.IH show ?thesis by simp
  qed
qed

text \<open>
  When the walk reaches a digest that does not load and verify, having verified the
  digests before it, the error of that digest is the error of the walk.
\<close>

lemma chain_first_failure:
  assumes links: "stored_links loads H fs (pre @ x # post)"
    and dist: "distinct (pre @ x # post)"
    and ok: "\<forall>y \<in> set pre. verifies loads H fs y"
    and len: "x \<noteq> []"
    and fail: "get_object loads H fs x True = Inl e"
  shows "get_snapshot_chain loads H fs (hd (pre @ [x])) = Inl e"
proof -
  have stop: "chain_loop loads H fs (JStr x) visited chain = Inl e" if "x \<notin> set visited"
    for visited chain
    using that len fail by (subst chain_loop.simps) simp
  show ?thesis
  proof (cases pre)
    case Nil
    then show ?thesis using stop[of "[]" "[]"] by (simp add: get_snapshot_chain_def)
  next
    case (Cons h pre')
    from stored_links_append[OF links] Cons
    have sl: "stored_links loads H fs (h # pre')"
      and lastp: "stored_parent loads H fs (last (h # pre')) = Some (JStr x)" by simp_all
    have pl: "parent_links loads H fs (h # pre')"
      using stored_links_verified[OF sl] ok Cons by simp
    have "last (h # pre') \<in> set pre" using Cons by (metis last_in_set list.distinct(1))
    then have lp: "parent_of loads H fs (last (h # pre')) = Some (JStr x)"
      using ok lastp by (simp add: verifies_parent)
    have d: "distinct (h # pre')" and nx: "x \<notin> set (h # pre')" using dist Cons by auto
    from chain_loop_walk[OF pl d _ lp, of "[]" "[]"]
    have "chain_loop loads H fs (JStr h) [] [] = chain_loop loads H fs (JStr x) (h # pre') (h # pre')"
      by simp
    with stop[OF nx] Cons show ?thesis by (simp add: get_snapshot_chain_def)
  qed
qed

text \<open>
  In the second example store the parent of \<open>c1\<close> is \<open>c1\<close>: the walk along the parent
  pointers from \<open>c1\<close> comes back to \<open>c1\<close>. \<^verbatim>\<open>get_snapshot_chain\<close> reads every snapshot
  with verification, and the record of \<open>c1\<close> does not have the digest \<open>c1\<close> under the
  hash function used here, so the call raises ObjectCorruptedError at once.
\<close>

lemma example_cycle_stored:
  "stored_parent example_cycle_loads H example_cycle_fs ''c1'' = Some (JStr ''c1'')"
  by (simp add: stored_parent_def get_object_def get_object_path_def get_hash_prefix_def
      example_cycle_fs_def example_cycle_loads_def example_cycle_snapshot_def
      Snapshot_from_dict_def Snapshot_init_def py_or_def)

lemma example_cycle_corrupted:
  "get_object example_cycle_loads (\<lambda>b. ''00'') example_cycle_fs ''c1'' True =
     Inl (ObjectCorruptedError ''c1'' ''c1'' ''00'')"
  by (simp add: get_object_def get_object_path_def get_hash_prefix_def
      example_cycle_fs_def example_cycle_loads_def example_cycle_snapshot_def
      verify_object_structure_def valid_types_def verify_object_integrity_def
      compute_object_hash_def canonical_json_def)

theorem get_snapshot_chain_cycle_error:
  "stored_parent example_cycle_loads (\<lambda>b. ''00'') example_cycle_fs ''c1'' = Some (JStr ''c1'') \<and>
   get_snapshot_chain example_cycle_loads (\<lambda>b. ''00'') example_cycle_fs ''c1'' =
     Inl (ObjectCorruptedError ''c1'' ''c1'' ''00'')"
proof -
  have "chain_loop example_cycle_loads (\<lambda>b. ''00'') example_cycle_fs (JStr ''c1'') [] [] =
        Inl (ObjectCorruptedError ''c1'' ''c1'' ''00'')"
    by (subst chain_loop.simps) (simp add: example_cycle_corrupted)
  then show ?thesis
    using example_cycle_stored by (simp add: get_snapshot_chain_def)
qed

text \<open>
  Claim C7. Let \<open>h # hs\<close> be distinct digests, file names all, each with the next one as
  the parent that its stored record gives, and let \<open>p\<close> be the stored parent of the last
  one. When every digest of the walk verifies and \<open>p\<close> is \<^verbatim>\<open>None\<close> or empty,
  \<open>get_snapshot_chain h\<close> returns the digests root first, ending with \<open>h\<close>. When every
  digest verifies and \<open>p\<close> is one of the digests walked, the call raises
  InvalidObjectError. When a digest of the walk does not load and verify, and those
  before it do, the call raises the error of that digest, so a cycle is reported as
  ObjectCorruptedError where a recomputed digest differs. The function is total, and no
  call raises InvalidReferenceError.
\<close>

theorem get_snapshot_chain_walk:
  assumes "stored_links loads H fs (h # hs)" "distinct (h # hs)"
    "\<forall>x \<in> set (h # hs). plain_name x"
    "stored_parent loads H fs (last (h # hs)) = Some p"
  shows "((\<forall>x \<in> set (h # hs). verifies loads H fs x) \<longrightarrow> \<not> py_truthy p \<longrightarrow>
            get_snapshot_chain loads H fs h = Inr (rev (h # hs))) \<and>
         (\<forall>h'. (\<forall>x \<in> set (h # hs). verifies loads H fs x) \<longrightarrow> p = JStr h' \<longrightarrow>
            h' \<in> set (h # hs) \<longrightarrow>
            get_snapshot_chain loads H fs h = Inl InvalidObjectError) \<and>
         (\<forall>pre x post e. h # hs = pre @ x # post \<longrightarrow>
            (\<forall>y \<in> set pre. verifies loads H fs y) \<longrightarrow>
            get_object loads H fs x True = Inl e \<longrightarrow>
            get_snapshot_chain loads H fs h = Inl e) \<and>
         get_snapshot_chain loads H fs h \<noteq> Inl InvalidReferenceError"
proof -
  have defined: "stored_parent loads H fs x \<noteq> None" if "x \<in> set (h # hs)" for x
    using assms(1,4) that by (induction hs arbitrary: h) auto
  have walk: "get_snapshot_chain loads H fs h = chain_loop loads H fs p (h # hs) (h # hs)"
    if all: "\<forall>x \<in> set (h # hs). verifies loads H fs x"
  proof -
    have pl: "parent_links loads H fs (h # hs)"
      using stored_links_verified[OF assms(1) all] .
    have "parent_of loads H fs (last (h # hs)) = Some p"
      using all assms(4) verifies_parent[of loads H fs "last (h # hs)"]
      by (metis last_in_set list.distinct(1))
    from chain_loop_walk[OF pl assms(2) _ this, of "[]" "[]"] show ?thesis
      by (simp add: get_snapshot_chain_def)
  qed
  have a: "get_snapshot_chain loads H fs h = Inr (rev (h # hs))"
    if "\<forall>x \<in> set (h # hs). verifies loads H fs x" "\<not> py_truthy p"
    using that(2) unfolding walk[OF that(1)] by (subst chain_loop.simps) simp
  have b: "get_snapshot_chain loads H fs h = Inl InvalidObjectError"
    if "\<forall>x \<in> set (h # hs). verifies loads H fs x" "p = JStr h'" "h' \<in> set (h # hs)" for h'
  proof -
    from defined[OF that(3)] obtain q where "stored_parent loads H fs h' = Some q" by auto
    from stored_parent_length[OF this] have "h' \<noteq> []" by auto
    with that(2,3) show ?thesis unfolding walk[OF that(1)] by (subst chain_loop.simps) simp
  qed
  have c: "get_snapshot_chain loads H fs h = Inl e"
    if "h # hs = pre @ x # post" "\<forall>y \<in> set pre. verifies loads H fs y"
      "get_object loads H fs x True = Inl e" for pre x post e
  proof -
    have "x \<in> set (h # hs)" using that(1) by simp
    from defined[OF this] obtain q where "stored_parent loads H fs x = Some q" by auto
    from stored_parent_length[OF this] have nx: "x \<noteq> []" by auto
    have hd: "hd (pre @ [x]) = h" using that(1) by (cases pre) simp_all
    from chain_first_failure[OF assms(1)[unfolded that(1)] assms(2)[unfolded that(1)] that(2) nx that(3)]
    show ?thesis by (simp add: hd)
  qed
  have d: "get_snapshot_chain loads H fs h \<noteq> Inl InvalidReferenceError"
    unfolding get_snapshot_chain_def by (rule chain_loop_not_invalid_reference)
  from a b c d show ?thesis by blast
qed

lemma example_chain_bytes:
  "canonical_encoding example_root \<noteq> canonical_encoding example_child"
  by (simp add: example_root_def example_child_def canonical_encoding_def utf8_encode_def
      utf8_char_def encode_basestring_def escape_char_def)

lemma example_chain_objects:
  "get_object example_chain_loads example_chain_hash example_chain_fs ''k2'' True = Inr example_child"
  "get_object example_chain_loads example_chain_hash example_chain_fs ''r1'' True = Inr example_root"
proof -
  have st: "verify_object_structure example_root = Inr ()" "verify_object_structure example_child = Inr ()"
    by (simp_all add: verify_object_structure_def valid_types_def example_root_def example_child_def)
  have cj: "canonical_json example_root = Inr (canonical_encoding example_root)"
    "canonical_json example_child = Inr (canonical_encoding example_child)"
    by (simp_all add: canonical_json_def example_root_def example_child_def)
  have hs: "compute_object_hash example_chain_hash example_root = Inr ''r1''"
    "compute_object_hash example_chain_hash example_child = Inr ''k2''"
    using example_chain_bytes by (auto simp: compute_object_hash_def cj example_chain_hash_def)
  show "get_object example_chain_loads example_chain_hash example_chain_fs ''k2'' True = Inr example_child"
    by (simp add: get_object_def get_object_path_def get_hash_prefix_def
        example_chain_fs_def example_chain_loads_def st hs verify_object_integrity_def)
  show "get_object example_chain_loads example_chain_hash example_chain_fs ''r1'' True = Inr example_root"
    by (simp add: get_object_def get_object_path_def get_hash_prefix_def
        example_chain_fs_def example_chain_loads_def st hs verify_object_integrity_def)
qed

lemma example_chain_stored:
  "stored_parent example_chain_loads example_chain_hash example_chain_fs ''k2'' = Some (JStr ''r1'')"
  "stored_parent example_chain_loads example_chain_hash example_chain_fs ''r1'' = Some JNull"
  by (simp_all add: stored_parent_def get_object_def get_object_path_def get_hash_prefix_def
      example_chain_fs_def example_chain_loads_def example_root_def example_child_def
      Snapshot_from_dict_def Snapshot_init_def py_or_def)

theorem get_snapshot_chain_walk_witness:
  "get_snapshot_chain example_chain_loads example_chain_hash example_chain_fs ''k2'' =
     Inr [''r1'', ''k2''] \<and>
   get_snapshot_chain example_cycle_loads (\<lambda>b. ''c1'') example_cycle_fs ''c1'' =
     Inl InvalidObjectError \<and>
   get_snapshot_chain example_cycle_loads (\<lambda>b. ''00'') example_cycle_fs ''c1'' =
     Inl (ObjectCorruptedError ''c1'' ''c1'' ''00'')"
proof -
  have links: "stored_links example_chain_loads example_chain_hash example_chain_fs [''k2'', ''r1'']"
    using example_chain_stored(1) by simp
  have d: "distinct [''k2'', ''r1'']" by simp
  have plain: "\<forall>x \<in> set [''k2'', ''r1'']. plain_name x" by (simp add: plain_name_def)
  have root: "stored_parent example_chain_loads example_chain_hash example_chain_fs
      (last [''k2'', ''r1'']) = Some JNull"
    using example_chain_stored(2) by simp
  have ver: "\<forall>x \<in> set [''k2'', ''r1'']. verifies example_chain_loads example_chain_hash example_chain_fs x"
    by (simp add: verifies_def example_chain_objects)
  have none: "\<not> py_truthy JNull" by simp
  from get_snapshot_chain_walk[OF links d plain root, THEN conjunct1, THEN mp, THEN mp, OF ver none]
  have acyclic: "get_snapshot_chain example_chain_loads example_chain_hash example_chain_fs ''k2'' =
     Inr [''r1'', ''k2'']" by simp
  have d': "distinct [''c1'']" and plain': "\<forall>x \<in> set [''c1'']. plain_name x"
    by (simp_all add: plain_name_def)
  have links': "stored_links example_cycle_loads H example_cycle_fs [''c1'']" for H by simp
  have ret: "stored_parent example_cycle_loads H example_cycle_fs (last [''c1'']) =
      Some (JStr ''c1'')" for H
    using example_cycle_stored by simp
  have fixp: "get_object example_cycle_loads (\<lambda>b. ''c1'') example_cycle_fs ''c1'' True =
      Inr example_cycle_snapshot"
    by (simp add: get_object_def get_object_path_def get_hash_prefix_def
        example_cycle_fs_def example_cycle_loads_def example_cycle_snapshot_def
        verify_object_structure_def valid_types_def verify_object_integrity_def
        compute_object_hash_def canonical_json_def)
  have ver': "\<forall>x \<in> set [''c1'']. verifies example_cycle_loads (\<lambda>b. ''c1'') example_cycle_fs x"
    by (simp add: verifies_def fixp)
  have mem: "''c1'' \<in> set [''c1'']" by simp
  note cyclic = get_snapshot_chain_walk[OF links' d' plain' ret, THEN conjunct2, THEN conjunct1,
      rule_format, OF ver'[rule_format] refl mem]
  have split: "[''c1''] = [] @ ''c1'' # []" by simp
  have pre: "\<forall>y \<in> set []. verifies example_cycle_loads (\<lambda>b. ''00'') example_cycle_fs y" by simp
  note broken = get_snapshot_chain_walk[OF links' d' plain' ret, THEN conjunct2, THEN conjunct2,
      THEN conjunct1, rule_format, OF split pre[rule_format] example_cycle_corrupted]
  from acyclic cyclic broken show ?thesis by (intro conjI)
qed

section \<open>Recursive verification: which failure ends what\<close>





























end
